theory Spec2Isabelle
  imports Main
begin

chapter \<open>The embedding of server.js\<close>

section \<open>Errors and resolved streams\<close>

text \<open>
  Every failure in \<^verbatim>\<open>server.js\<close> is a JavaScript \<^verbatim>\<open>Error\<close> object: a message plus
  the properties the code attaches to it. The poller marks an explicit job failure with
  \<^verbatim>\<open>isNzbdavFailure = true\<close> and sets \<^verbatim>\<open>failureMessage\<close>, \<^verbatim>\<open>nzoId\<close> and
  \<^verbatim>\<open>category\<close>; the builder adds \<^verbatim>\<open>downloadUrl\<close> and \<^verbatim>\<open>title\<close> to such an error; an HTTP
  client error carries \<^verbatim>\<open>response.status\<close>. A property that was never set reads as
  \<^verbatim>\<open>undefined\<close>, modelled by \<open>None\<close> (and by \<open>False\<close> for the flag).
\<close>

record js_error =
  message :: string
  isNzbdavFailure :: bool
  failureMessage :: "string option"
  nzoId :: "string option"
  category :: "string option"
  response_status :: "nat option"
  downloadUrl :: "string option"
  title :: "string option"

definition Error :: "string \<Rightarrow> js_error" where
  "Error msg = \<lparr>message = msg, isNzbdavFailure = False, failureMessage = None,
     nzoId = None, category = None, response_status = None, downloadUrl = None, title = None\<rparr>"

text \<open>The object returned by \<^verbatim>\<open>buildNzbdavStream\<close> and memoized by the cache.\<close>

record stream_data =
  sd_nzoId :: string
  sd_category :: string
  sd_jobName :: string
  sd_viewPath :: string
  sd_size :: nat

section \<open>The stream resolution cache\<close>

text \<open>
  \<^verbatim>\<open>nzbdavStreamCache\<close> is a \<^verbatim>\<open>Map\<close> from cache key to an entry object with a
  \<^verbatim>\<open>status\<close> of \<^verbatim>\<open>'pending'\<close>, \<^verbatim>\<open>'ready'\<close> or \<^verbatim>\<open>'failed'\<close>. A pending entry holds the
  in-flight promise and has no \<^verbatim>\<open>expiresAt\<close> property; a ready entry holds the data and a
  failed entry the error, both with \<^verbatim>\<open>expiresAt\<close>. A promise is identified by a number.
\<close>

type_synonym promise_id = nat

datatype entry =
    Pending promise_id
  | Ready stream_data "nat option"
  | Failed js_error "nat option"

fun expiresAt :: "entry \<Rightarrow> nat option" where
  "expiresAt (Pending p) = None"
| "expiresAt (Ready d t) = t"
| "expiresAt (Failed e t) = t"

definition NZBDAV_CACHE_TTL_MS :: nat where
  "NZBDAV_CACHE_TTL_MS = 3600000"

text \<open>
  \<^verbatim>\<open>cleanupNzbdavCache\<close>: with a positive TTL, delete every entry whose \<^verbatim>\<open>expiresAt\<close> is
  truthy (set and non-zero) and \<^verbatim>\<open>\<le> now\<close>.
\<close>

definition expired :: "nat \<Rightarrow> entry \<Rightarrow> bool" where
  "expired now e = (case expiresAt e of None \<Rightarrow> False | Some t \<Rightarrow> t \<noteq> 0 \<and> t \<le> now)"

definition cleanupNzbdavCache :: "nat \<Rightarrow> (string \<rightharpoonup> entry) \<Rightarrow> (string \<rightharpoonup> entry)" where
  "cleanupNzbdavCache now c =
     (if NZBDAV_CACHE_TTL_MS \<le> 0 then c
      else (\<lambda>k. case c k of
                  None \<Rightarrow> None
                | Some e \<Rightarrow> if expired now e then None else Some e))"

text \<open>
  The server's shared state. JavaScript runs each synchronous stretch of code to the end
  before anything else runs, so the state changes in atomic steps:
  \<^item> a call of \<^verbatim>\<open>getOrCreateNzbdavStream\<close> up to its first suspension (the handler calls it
    without awaiting anything before);
  \<^item> the settling of a build promise, together with the continuations that commit its
    outcome (they run as microtasks, before any new request is handled);
  \<^item> the passing of time.
  \<open>builds\<close> maps every in-flight promise to the \<^verbatim>\<open>cacheKey\<close> its closure captured;
  \<open>builder_calls\<close> records, in order, the keys for which \<^verbatim>\<open>builder()\<close> was invoked.
\<close>

record server_state =
  nzbdavStreamCache :: "string \<rightharpoonup> entry"
  clock :: nat
  builds :: "promise_id \<rightharpoonup> string"
  next_promise :: promise_id
  builder_calls :: "string list"

definition init_state :: "nat \<Rightarrow> server_state" where
  "init_state t0 = \<lparr>nzbdavStreamCache = Map.empty, clock = t0, builds = Map.empty,
     next_promise = 0, builder_calls = []\<rparr>"

text \<open>
  What the caller of \<^verbatim>\<open>getOrCreateNzbdavStream\<close> gets: the memoized data, the memoized
  error, or the outcome of a promise (\<^verbatim>\<open>return existing.promise\<close> and
  \<^verbatim>\<open>return await promise\<close> with its rethrowing \<^verbatim>\<open>catch\<close> both settle as that promise does).
\<close>

datatype outcome = Returned stream_data | Thrown js_error | Awaits promise_id

definition commit_expiry :: "nat \<Rightarrow> nat option" where
  "commit_expiry now = (if NZBDAV_CACHE_TTL_MS > 0 then Some (now + NZBDAV_CACHE_TTL_MS) else None)"

definition getOrCreateNzbdavStream :: "string \<Rightarrow> server_state \<Rightarrow> outcome \<times> server_state" where
  "getOrCreateNzbdavStream cacheKey s =
     (let c = cleanupNzbdavCache (clock s) (nzbdavStreamCache s);
          s1 = s\<lparr>nzbdavStreamCache := c\<rparr>
      in case c cacheKey of
           Some (Ready d t) \<Rightarrow> (Returned d, s1)
         | Some (Pending p) \<Rightarrow> (Awaits p, s1)
         | Some (Failed e t) \<Rightarrow> (Thrown e, s1)
         | None \<Rightarrow>
             (let p = next_promise s
              in (Awaits p,
                  s1\<lparr>nzbdavStreamCache := c(cacheKey \<mapsto> Pending p),
                     builds := (builds s)(p \<mapsto> cacheKey),
                     next_promise := Suc p,
                     builder_calls := builder_calls s @ [cacheKey]\<rparr>)))"

text \<open>
  The build promise \<open>p\<close> settles with \<open>r\<close> (\<open>Inr\<close> the data, \<open>Inl\<close> the error thrown by
  the builder). On success the promise's own body stores the ready entry; on an error
  the creator's \<^verbatim>\<open>catch\<close> stores a failed entry for a marked job failure and deletes the
  key otherwise. Both write to the captured key whatever the map holds there.
\<close>

definition settle :: "promise_id \<Rightarrow> js_error + stream_data \<Rightarrow> server_state \<Rightarrow> server_state" where
  "settle p r s =
     (case builds s p of
        None \<Rightarrow> s
      | Some cacheKey \<Rightarrow>
          (let s1 = s\<lparr>builds := (builds s)(p := None)\<rparr>
           in case r of
                Inr d \<Rightarrow>
                  s1\<lparr>nzbdavStreamCache :=
                       (nzbdavStreamCache s)(cacheKey \<mapsto> Ready d (commit_expiry (clock s)))\<rparr>
              | Inl e \<Rightarrow>
                  if isNzbdavFailure e
                  then s1\<lparr>nzbdavStreamCache :=
                            (nzbdavStreamCache s)(cacheKey \<mapsto> Failed e (commit_expiry (clock s)))\<rparr>
                  else s1\<lparr>nzbdavStreamCache := (nzbdavStreamCache s)(cacheKey := None)\<rparr>))"

datatype event =
    Request string
  | Settle promise_id "js_error + stream_data"
  | Tick nat

fun step :: "event \<Rightarrow> server_state \<Rightarrow> server_state" where
  "step (Request k) s = snd (getOrCreateNzbdavStream k s)"
| "step (Settle p r) s = settle p r s"
| "step (Tick d) s = s\<lparr>clock := clock s + d\<rparr>"

fun run :: "event list \<Rightarrow> server_state \<Rightarrow> server_state" where
  "run [] s = s"
| "run (e # es) s = run es (step e s)"

text \<open>What each request of a run gets back, in order.\<close>

fun observations :: "event list \<Rightarrow> server_state \<Rightarrow> (string \<times> outcome) list" where
  "observations [] s = []"
| "observations (Request k # es) s =
     (k, fst (getOrCreateNzbdavStream k s)) # observations es (step (Request k) s)"
| "observations (e # es) s = observations es (step e s)"

text \<open>
  The outcome a caller finally sees, given how each promise settles.
\<close>

fun observe :: "(promise_id \<Rightarrow> js_error + stream_data) \<Rightarrow> outcome \<Rightarrow> js_error + stream_data" where
  "observe \<sigma> (Returned d) = Inr d"
| "observe \<sigma> (Thrown e) = Inl e"
| "observe \<sigma> (Awaits p) = \<sigma> p"

text \<open>
  The invariant of the reachable states: the pending entries are exactly the in-flight
  builds, each under the key its closure captured, and promise numbers are fresh.
\<close>

definition cache_inv :: "server_state \<Rightarrow> bool" where
  "cache_inv s =
     ((\<forall>p k. builds s p = Some k \<longrightarrow> nzbdavStreamCache s k = Some (Pending p)) \<and>
      (\<forall>p k. nzbdavStreamCache s k = Some (Pending p) \<longrightarrow> builds s p = Some k) \<and>
      (\<forall>p k. builds s p = Some k \<longrightarrow> p < next_promise s))"

fun settles :: "promise_id \<Rightarrow> event \<Rightarrow> bool" where
  "settles p (Settle q r) = (p = q)"
| "settles p e = False"

definition demo_data :: stream_data where
  "demo_data = \<lparr>sd_nzoId = ''nzo1'', sd_category = ''Movies'', sd_jobName = ''My.Movie.2024'',
     sd_viewPath = ''content/Movies/My.Movie.2024/My.Movie.2024.mkv'', sd_size = 4200000000\<rparr>"

definition demo_pending :: server_state where
  "demo_pending = run [Request ''u|Movies''] (init_state 1000)"

text \<open>What a request returns when the key holds the entry (after the cleanup).\<close>

fun hit_outcome :: "entry \<Rightarrow> outcome" where
  "hit_outcome (Ready d t) = Returned d"
| "hit_outcome (Pending p) = Awaits p"
| "hit_outcome (Failed e t) = Thrown e"

definition demo_failure :: js_error where
  "demo_failure = \<lparr>message = ''[NZBDAV] NZB failed: missing articles'', isNzbdavFailure = True,
     failureMessage = Some ''missing articles'', nzoId = Some ''nzo1'',
     category = Some ''Movies'', response_status = None,
     downloadUrl = None, title = None\<rparr>"

definition demo_ready :: server_state where
  "demo_ready = run [Request ''u|Movies'', Tick 4000, Settle 0 (Inr demo_data)] (init_state 1000)"

section \<open>Strings, numbers and objects\<close>

text \<open>
  Strings are lists of characters, one per code unit of the JavaScript string. The
  characters of the model are those with codes 0 to 255; text holding other code units
  is outside it.
  Sizes and times in milliseconds are natural numbers. They stay below \<open>2^53\<close>, where
  JavaScript's numbers are exact. The numbers read from a request (the bounds of a range,
  the numbers of an episode) have no such bound, so what JavaScript makes of them is
  modelled below.
  \<^verbatim>\<open>toLowerCase\<close> is modelled on the ASCII letters, which is all the comparisons with
  ASCII words in this file depend on.
\<close>

definition toLowerChar :: "char \<Rightarrow> char" where
  "toLowerChar c =
     (case map_of (zip ''ABCDEFGHIJKLMNOPQRSTUVWXYZ'' ''abcdefghijklmnopqrstuvwxyz'') c of
        Some l \<Rightarrow> l
      | None \<Rightarrow> c)"

definition toLowerCase :: "string \<Rightarrow> string" where
  "toLowerCase s = map toLowerChar s"

text \<open>The decimal digits of a number, as a template literal \<^verbatim>\<open>${n}\<close> prints it.\<close>

fun dec :: "nat \<Rightarrow> string" where
  "dec n = (if n < 10 then [''0123456789'' ! n] else dec (n div 10) @ [''0123456789'' ! (n mod 10)])"

declare dec.simps [simp del]

text \<open>
  A JavaScript number is a double. \<open>toDouble n\<close> is the number that the exact value \<open>n\<close>
  becomes: \<open>n\<close> itself below \<open>2^53\<close>; otherwise \<open>n\<close> rounded to 53 significant bits, to
  the nearest such value and to the even one of two equally near; and \<open>None\<close>, standing
  for \<^verbatim>\<open>Infinity\<close>, when the rounded value reaches \<open>2^1024\<close>.
\<close>

fun bitLength :: "nat \<Rightarrow> nat" where
  "bitLength n = (if n = 0 then 0 else Suc (bitLength (n div 2)))"

declare bitLength.simps [simp del]

definition toDouble :: "nat \<Rightarrow> nat option" where
  "toDouble n =
     (if n < 2 ^ 53 then Some n
      else
        (let e = bitLength n - 53;
             q = n div 2 ^ e;
             r = n mod 2 ^ e;
             half = 2 ^ (e - 1);
             q' = (if half < r \<or> (r = half \<and> odd q) then q + 1 else q)
         in if 2 ^ 1024 \<le> q' * 2 ^ e then None else Some (q' * 2 ^ e)))"

text \<open>
  How a template literal \<^verbatim>\<open>${x}\<close> prints an integer-valued number \<open>x\<close>
  (\<^verbatim>\<open>Number::toString\<close> of the language). Below \<open>2^53\<close> these are the decimal digits of
  \<open>x\<close>. From there on they are the digits of the shortest \<open>s\<close>, of \<open>k\<close> digits, for which
  \<open>s * 10^(n - k)\<close> is a value that becomes the number \<open>x\<close>, and of the values of that
  length the one nearest to \<open>x\<close>: followed by \<open>n - k\<close> zeros when \<open>n \<le> 21\<close>, and in the
  exponent form \<^verbatim>\<open>d.ddde+N\<close> with \<open>N = n - 1\<close> otherwise. \<open>shortestDigits x n k\<close> searches
  the lengths from \<open>k\<close> on for a value of \<open>n\<close> digits; \<open>numberDigits\<close> first tries the
  power of ten above \<open>x\<close>, which has one digit more than \<open>x\<close>.
\<close>

function shortestDigits :: "nat \<Rightarrow> nat \<Rightarrow> nat \<Rightarrow> nat \<times> nat" where
  "shortestDigits x n k =
     (if n \<le> k then (x, n)
      else
        (let m = 10 ^ (n - k);
             lo = x div m;
             hi = lo + 1;
             okLo = (toDouble (lo * m) = Some x);
             okHi = (hi < 10 ^ k \<and> toDouble (hi * m) = Some x)
         in if okLo \<and> okHi then (if x - lo * m \<le> hi * m - x then lo else hi, k)
            else if okLo then (lo, k)
            else if okHi then (hi, k)
            else shortestDigits x n (k + 1)))"
  by pat_completeness auto
termination
  by (relation "measure (\<lambda>(x, n, k). n - k)") auto

declare shortestDigits.simps [simp del]

definition numberDigits :: "nat \<Rightarrow> nat \<times> nat \<times> nat" where
  "numberDigits x =
     (let d = length (dec x)
      in if toDouble (10 ^ d) = Some x then (1, 1, d + 1)
         else (case shortestDigits x d 1 of (s, k) \<Rightarrow> (s, k, d)))"

definition natToString :: "nat \<Rightarrow> string" where
  "natToString x =
     (if x < 2 ^ 53 then dec x
      else
        (case numberDigits x of
           (s, k, n) \<Rightarrow>
             if n \<le> 21 then dec s @ replicate (n - k) (CHR ''0'')
             else if k = 1 then dec s @ ''e+'' @ dec (n - 1)
             else hd (dec s) # CHR ''.'' # tl (dec s) @ ''e+'' @ dec (n - 1)))"

definition numberToString :: "int \<Rightarrow> string" where
  "numberToString i = (if i < 0 then CHR ''-'' # natToString (nat (- i)) else natToString (nat i))"

text \<open>
  A JSON object of the download manager, with string-valued properties; a missing
  property reads as \<^verbatim>\<open>undefined\<close> (\<open>None\<close>). \<open>orElse a b\<close> is \<^verbatim>\<open>a || b\<close>: \<^verbatim>\<open>undefined\<close>
  and the empty string are falsy.
\<close>

type_synonym js_object = "(string \<times> string) list"

definition field :: "js_object \<Rightarrow> string \<Rightarrow> string option" where
  "field obj name = map_of obj name"

definition truthy :: "string option \<Rightarrow> bool" where
  "truthy v = (case v of None \<Rightarrow> False | Some s \<Rightarrow> s \<noteq> [])"

definition orElse :: "string option \<Rightarrow> string option \<Rightarrow> string option" where
  "orElse a b = (if truthy a then a else b)"

section \<open>Configuration\<close>

record config =
  NZBDAV_URL :: string
  NZBDAV_API_KEY :: string
  NZBDAV_WEBDAV_URL :: string

definition ensureNzbdavConfigured :: "config \<Rightarrow> js_error option" where
  "ensureNzbdavConfigured cfg =
     (if NZBDAV_URL cfg = [] then Some (Error ''NZBDAV_URL is not configured'')
      else if NZBDAV_API_KEY cfg = [] then Some (Error ''NZBDAV_API_KEY is not configured'')
      else if NZBDAV_WEBDAV_URL cfg = [] then Some (Error ''NZBDAV_WEBDAV_URL is not configured'')
      else None)"

section \<open>The completion poller\<close>

definition NZBDAV_POLL_INTERVAL_MS :: nat where
  "NZBDAV_POLL_INTERVAL_MS = 2000"

definition NZBDAV_POLL_TIMEOUT_MS :: nat where
  "NZBDAV_POLL_TIMEOUT_MS = 80000"

text \<open>
  The reply to one history query: the HTTP client rejects (network error, per-call
  timeout, status 500 or above), or it resolves with the HTTP status and the body. Of
  the body the code reads \<^verbatim>\<open>status\<close>, \<^verbatim>\<open>error\<close> and the slots (under
  \<^verbatim>\<open>history.slots\<close> or one of its aliases, the empty list when absent).
\<close>

record history_data =
  data_status :: bool
  data_error :: "string option"
  slots :: "js_object list"

datatype history_reply = Rejected js_error | Response nat history_data

text \<open>
  The manager as the poller sees it: the reply to its \<open>i\<close>-th query, and the time in
  milliseconds that passes between the loop's check of the deadline and the start of
  the sleep in round \<open>i\<close>.
\<close>

record poll_env =
  reply :: "nat \<Rightarrow> history_reply"
  elapsed :: "nat \<Rightarrow> nat"

definition failureError :: "string \<Rightarrow> string \<Rightarrow> string \<Rightarrow> js_error" where
  "failureError failMessage nzo cat =
     (Error (''[NZBDAV] NZB failed: '' @ failMessage))
       \<lparr>isNzbdavFailure := True, failureMessage := Some failMessage,
        nzoId := Some nzo, category := Some cat\<rparr>"

text \<open>
  One round of the loop of \<^verbatim>\<open>waitForNzbdavHistorySlot\<close>, from the reply on: \<open>Some\<close> when
  the function returns the slot (\<open>Inr\<close>) or throws (\<open>Inl\<close>), \<open>None\<close> when it goes on to
  sleep.
\<close>

definition entryId :: "js_object \<Rightarrow> string option" where
  "entryId entry = orElse (orElse (field entry ''nzo_id'') (field entry ''nzoId'')) (field entry ''NzoId'')"

definition slotStatus :: "js_object \<Rightarrow> string" where
  "slotStatus slot =
     toLowerCase (case orElse (orElse (field slot ''status'') (field slot ''Status'')) (Some []) of
                    Some v \<Rightarrow> v
                  | None \<Rightarrow> [])"

definition slotFailMessage :: "js_object \<Rightarrow> string" where
  "slotFailMessage slot =
     (case orElse (orElse (orElse (field slot ''fail_message'') (field slot ''failMessage''))
                          (field slot ''FailMessage''))
                  (Some ''Unknown NZBDav error'') of
        Some v \<Rightarrow> v
      | None \<Rightarrow> [])"

definition pollOnce :: "string \<Rightarrow> string \<Rightarrow> history_reply \<Rightarrow> (js_error + js_object) option" where
  "pollOnce nzo cat rep =
     (case rep of
        Rejected e \<Rightarrow> Some (Inl e)
      | Response http d \<Rightarrow>
          if \<not> data_status d
          then Some (Inl (Error (''[NZBDAV] Failed to query history: '' @
                 (if truthy (data_error d) then the (data_error d)
                  else ''history returned status '' @ dec http))))
          else
            (case find (\<lambda>entry. entryId entry = Some nzo) (slots d) of
               None \<Rightarrow> None
             | Some slot \<Rightarrow>
                 if slotStatus slot = ''completed'' then Some (Inr slot)
                 else if slotStatus slot = ''failed''
                 then Some (Inl (failureError (slotFailMessage slot) nzo cat))
                 else None))"

definition timeoutError :: js_error where
  "timeoutError = Error ''[NZBDAV] Timeout while waiting for NZB to become streamable''"

function waitLoop :: "poll_env \<Rightarrow> string \<Rightarrow> string \<Rightarrow> nat \<Rightarrow> nat \<Rightarrow> nat \<Rightarrow> js_error + js_object" where
  "waitLoop env nzo cat deadline now i =
     (if now < deadline
      then (case pollOnce nzo cat (reply env i) of
              Some r \<Rightarrow> r
            | None \<Rightarrow>
                waitLoop env nzo cat deadline (now + elapsed env i + NZBDAV_POLL_INTERVAL_MS) (Suc i))
      else Inl timeoutError)"
  by pat_completeness auto
termination
  by (relation "measure (\<lambda>(env, nzo, cat, deadline, now, i). deadline - now)")
     (auto simp: NZBDAV_POLL_INTERVAL_MS_def)

declare waitLoop.simps [simp del]

definition waitForNzbdavHistorySlot ::
  "config \<Rightarrow> poll_env \<Rightarrow> nat \<Rightarrow> string \<Rightarrow> string \<Rightarrow> js_error + js_object" where
  "waitForNzbdavHistorySlot cfg env start nzo cat =
     (case ensureNzbdavConfigured cfg of
        Some e \<Rightarrow> Inl e
      | None \<Rightarrow> waitLoop env nzo cat (start + NZBDAV_POLL_TIMEOUT_MS) start 0)"

text \<open>The time at which round \<open>i + j\<close> checks the deadline, when round \<open>i\<close> does at \<open>now\<close>.\<close>

fun round_time :: "poll_env \<Rightarrow> nat \<Rightarrow> nat \<Rightarrow> nat \<Rightarrow> nat" where
  "round_time env now i 0 = now"
| "round_time env now i (Suc j) =
     round_time env now i j + elapsed env (i + j) + NZBDAV_POLL_INTERVAL_MS"

text \<open>Sample inputs.\<close>

definition demo_cfg :: config where
  "demo_cfg = \<lparr>NZBDAV_URL = ''http://nzbdav:3000'', NZBDAV_API_KEY = ''secret'',
     NZBDAV_WEBDAV_URL = ''http://nzbdav:3000''\<rparr>"

definition demo_slot :: "string \<Rightarrow> js_object" where
  "demo_slot st = [(''nzo_id'', ''nzo1''), (''status'', st), (''name'', ''My.Movie.2024''),
     (''category'', ''Movies''), (''fail_message'', ''missing articles'')]"

definition demo_history :: "string \<Rightarrow> history_reply" where
  "demo_history st = Response 200 \<lparr>data_status = True, data_error = None,
     slots = [[(''nzo_id'', ''nzo0''), (''status'', ''Failed'')], demo_slot st]\<rparr>"

definition demo_env :: "string \<Rightarrow> nat \<Rightarrow> poll_env" where
  "demo_env final ms = \<lparr>reply = (\<lambda>i. demo_history (if i < 2 then ''Queued'' else final)),
     elapsed = (\<lambda>i. ms)\<rparr>"

section \<open>The media locator\<close>

definition NZBDAV_MAX_DIRECTORY_DEPTH :: nat where
  "NZBDAV_MAX_DIRECTORY_DEPTH = 6"

definition NZBDAV_VIDEO_EXTENSIONS :: "string list" where
  "NZBDAV_VIDEO_EXTENSIONS = [''.mp4'', ''.mkv'', ''.avi'', ''.mov'', ''.wmv'', ''.flv'', ''.webm'',
     ''.m4v'', ''.ts'', ''.m2ts'', ''.mpg'', ''.mpeg'']"

text \<open>
  \<^verbatim>\<open>path.posix.extname\<close> of the platform: the extension of the last segment of the path
  (trailing slashes ignored), from its last dot on; empty when the segment has no dot,
  starts with its only dot, or is \<^verbatim>\<open>..\<close>.
\<close>

definition lastSegment :: "string \<Rightarrow> string" where
  "lastSegment p =
     rev (takeWhile (\<lambda>c. c \<noteq> CHR ''/'') (dropWhile (\<lambda>c. c = CHR ''/'') (rev p)))"

definition extname :: "string \<Rightarrow> string" where
  "extname p =
     (let b = lastSegment p;
          ext = rev (takeWhile (\<lambda>c. c \<noteq> CHR ''.'') (rev b));
          before = take (length b - length ext - 1) b
      in if CHR ''.'' \<notin> set b \<or> before = [] \<or> b = ''..'' then [] else CHR ''.'' # ext)"

definition isVideoFileName :: "string \<Rightarrow> bool" where
  "isVideoFileName fileName = (extname (toLowerCase fileName) \<in> set NZBDAV_VIDEO_EXTENSIONS)"

text \<open>
  The requested episode, as \<^verbatim>\<open>parseRequestedEpisode\<close> builds it: two numbers that
  \<^verbatim>\<open>parseInt\<close> returned, finite and not zero, so integer-valued numbers of either sign
  and of any size a number can have.
\<close>

record requested_episode =
  season :: int
  episode :: int

text \<open>
  The regular expressions of \<^verbatim>\<open>fileMatchesEpisode\<close>, all with the flag \<^verbatim>\<open>i\<close>. They are
  built from template literals, in which the escapes \<^verbatim>\<open>\.\<close> and \<^verbatim>\<open>\s\<close> stand for the
  characters \<^verbatim>\<open>.\<close> and \<^verbatim>\<open>s\<close>; so the source texts handed to \<^verbatim>\<open>RegExp\<close> are
  \<^verbatim>\<open>s0*Se0*E(?![0-9])\<close>, \<^verbatim>\<open>s0*S.?e0*E(?![0-9])\<close>, \<^verbatim>\<open>0*S[xX]0*E(?![0-9])\<close> and
  \<^verbatim>\<open>[eE](?:pisode|p).?s*0*E(?![0-9])\<close>, with \<^verbatim>\<open>S\<close> and \<^verbatim>\<open>E\<close> the printed numbers.
  A pattern is a list of atoms; the alternation of the last one is written as two
  patterns. The printed numbers are read as part of the expression: a digit and a minus
  sign stand for themselves, the dot of an exponent form for any one character, and
  its \<^verbatim>\<open>e+\<close> for one or more letters \<^verbatim>\<open>e\<close>.
\<close>

datatype atom =
    Lit char
  | Star char
  | Plus char
  | AnyChar
  | OptAny
  | NoDigitAhead

definition lineTerminator :: "char \<Rightarrow> bool" where
  "lineTerminator c = (c = CHR 0x0A \<or> c = CHR 0x0D)"

definition isDigit :: "char \<Rightarrow> bool" where
  "isDigit c = (c \<in> set ''0123456789'')"

fun match_here :: "atom list \<Rightarrow> string \<Rightarrow> bool" where
  "match_here [] s = True"
| "match_here (Lit c # r) [] = False"
| "match_here (Lit c # r) (x # xs) = (toLowerChar x = toLowerChar c \<and> match_here r xs)"
| "match_here (Star c # r) [] = match_here r []"
| "match_here (Star c # r) (x # xs) =
     ((toLowerChar x = toLowerChar c \<and> match_here (Star c # r) xs) \<or> match_here r (x # xs))"
| "match_here (Plus c # r) [] = False"
| "match_here (Plus c # r) (x # xs) = (toLowerChar x = toLowerChar c \<and> match_here (Star c # r) xs)"
| "match_here (AnyChar # r) [] = False"
| "match_here (AnyChar # r) (x # xs) = (\<not> lineTerminator x \<and> match_here r xs)"
| "match_here (OptAny # r) [] = match_here r []"
| "match_here (OptAny # r) (x # xs) =
     ((\<not> lineTerminator x \<and> match_here r xs) \<or> match_here r (x # xs))"
| "match_here (NoDigitAhead # r) [] = match_here r []"
| "match_here (NoDigitAhead # r) (x # xs) = (\<not> isDigit x \<and> match_here r (x # xs))"

text \<open>\<^verbatim>\<open>regex.test\<close>: the pattern matches at some position of the string.\<close>

fun regex_test :: "atom list \<Rightarrow> string \<Rightarrow> bool" where
  "regex_test p [] = match_here p []"
| "regex_test p (x # xs) = (match_here p (x # xs) \<or> regex_test p xs)"

definition lits :: "string \<Rightarrow> atom list" where
  "lits s = map Lit s"

text \<open>The atoms that the printed form of a number stands for inside an expression.\<close>

fun numberAtoms :: "string \<Rightarrow> atom list" where
  "numberAtoms [] = []"
| "numberAtoms [c] = [if c = CHR ''.'' then AnyChar else Lit c]"
| "numberAtoms (c # d # cs) =
     (if d = CHR ''+'' then Plus c # numberAtoms cs
      else (if c = CHR ''.'' then AnyChar else Lit c) # numberAtoms (d # cs))"

definition episodePatterns :: "requested_episode \<Rightarrow> atom list list" where
  "episodePatterns req =
     (let S = numberAtoms (numberToString (season req));
          E = numberAtoms (numberToString (episode req))
      in [ [Lit CHR ''s'', Star CHR ''0''] @ S @ [Lit CHR ''e'', Star CHR ''0''] @ E @ [NoDigitAhead],
           [Lit CHR ''s'', Star CHR ''0''] @ S @ [OptAny, Lit CHR ''e'', Star CHR ''0''] @ E @ [NoDigitAhead],
           [Star CHR ''0''] @ S @ [Lit CHR ''x'', Star CHR ''0''] @ E @ [NoDigitAhead],
           [Lit CHR ''e''] @ lits ''pisode'' @ [OptAny, Star CHR ''s'', Star CHR ''0''] @ E @ [NoDigitAhead],
           [Lit CHR ''e''] @ lits ''p'' @ [OptAny, Star CHR ''s'', Star CHR ''0''] @ E @ [NoDigitAhead] ])"

definition fileMatchesEpisode :: "string \<Rightarrow> requested_episode option \<Rightarrow> bool" where
  "fileMatchesEpisode fileName requestedEpisode =
     (case requestedEpisode of
        None \<Rightarrow> True
      | Some req \<Rightarrow> list_ex (\<lambda>p. regex_test p fileName) (episodePatterns req))"

definition normalizeNzbdavPath :: "string \<Rightarrow> string" where
  "normalizeNzbdavPath pathValue =
     (if pathValue = [] then ''/''
      else (let normalized = map (\<lambda>c. if c = CHR 0x5C then CHR ''/'' else c) pathValue
            in if hd normalized = CHR ''/'' then normalized else CHR ''/'' # normalized))"

text \<open>
  An entry of a directory listing, as \<^verbatim>\<open>listWebdavDirectory\<close> returns it: the name (empty
  when the share gave none), whether it is a directory, and the size (\<^verbatim>\<open>null\<close> when the
  share gave none, read as 0).
\<close>

record dir_entry =
  entry_name :: string
  entry_isDirectory :: bool
  entry_size :: "nat option"

record candidate =
  cand_name :: string
  cand_size :: nat
  matchesEpisode :: bool
  absolutePath :: string
  viewPath :: string

text \<open>
  The variables of \<^verbatim>\<open>findBestVideoFile\<close>. \<open>listed\<close> and \<open>found\<close> are not in the source:
  they record the calls of \<^verbatim>\<open>listWebdavDirectory\<close> (path and depth) and the candidates
  built, in order, so that properties of the traversal can be stated.
\<close>

record search_state =
  queue :: "(string \<times> nat) list"
  visited :: "string list"
  bestMatch :: "candidate option"
  bestEpisodeMatch :: "candidate option"
  listed :: "(string \<times> nat) list"
  found :: "candidate list"

text \<open>The path of an entry: a nameless entry prints as \<^verbatim>\<open>undefined\<close> in the template.\<close>

definition nextPath :: "string \<Rightarrow> dir_entry \<Rightarrow> string" where
  "nextPath currentPath entry =
     normalizeNzbdavPath (currentPath @ ''/'' @
        (if entry_name entry = [] then ''undefined'' else entry_name entry))"

definition larger :: "candidate \<Rightarrow> candidate option \<Rightarrow> bool" where
  "larger c best = (case best of None \<Rightarrow> True | Some b \<Rightarrow> cand_size c > cand_size b)"

text \<open>The body of the loop over the entries of one directory.\<close>

definition mkCandidate :: "requested_episode option \<Rightarrow> string \<Rightarrow> dir_entry \<Rightarrow> candidate" where
  "mkCandidate requestedEpisode currentPath entry =
     \<lparr>cand_name = entry_name entry,
      cand_size = (case entry_size entry of None \<Rightarrow> 0 | Some n \<Rightarrow> n),
      matchesEpisode = fileMatchesEpisode (entry_name entry) requestedEpisode,
      absolutePath = nextPath currentPath entry,
      viewPath = dropWhile (\<lambda>ch. ch = CHR ''/'') (nextPath currentPath entry)\<rparr>"

definition visitEntry ::
  "requested_episode option \<Rightarrow> string \<Rightarrow> nat \<Rightarrow> dir_entry \<Rightarrow> search_state \<Rightarrow> search_state" where
  "visitEntry requestedEpisode currentPath depth entry st =
     (if entry_isDirectory entry
      then st\<lparr>queue := queue st @ [(nextPath currentPath entry, depth + 1)]\<rparr>
      else if entry_name entry = [] \<or> \<not> isVideoFileName (entry_name entry) then st
      else
        (let c = mkCandidate requestedEpisode currentPath entry;
             st1 = (if matchesEpisode c \<and> larger c (bestEpisodeMatch st)
                    then st\<lparr>bestEpisodeMatch := Some c\<rparr> else st);
             st2 = (if larger c (bestMatch st1) then st1\<lparr>bestMatch := Some c\<rparr> else st1)
         in st2\<lparr>found := found st2 @ [c]\<rparr>))"

fun scanEntries ::
  "requested_episode option \<Rightarrow> string \<Rightarrow> nat \<Rightarrow> dir_entry list \<Rightarrow> search_state \<Rightarrow> search_state" where
  "scanEntries requestedEpisode currentPath depth [] st = st"
| "scanEntries requestedEpisode currentPath depth (entry # entries) st =
     scanEntries requestedEpisode currentPath depth entries
       (visitEntry requestedEpisode currentPath depth entry st)"

text \<open>
  The remote share: the listing of a path, \<open>None\<close> when \<^verbatim>\<open>listWebdavDirectory\<close> throws.
  The measure of the queue below bounds the work left: \<open>subtree_size ls k p\<close> counts
  the directories within \<open>k\<close> levels below \<open>p\<close>, with repetitions.
\<close>

type_synonym share = "string \<Rightarrow> dir_entry list option"

definition subdirs :: "share \<Rightarrow> string \<Rightarrow> string list" where
  "subdirs ls p =
     (case ls p of
        None \<Rightarrow> []
      | Some entries \<Rightarrow> map (nextPath p) (filter entry_isDirectory entries))"

fun subtree_size :: "share \<Rightarrow> nat \<Rightarrow> string \<Rightarrow> nat" where
  "subtree_size ls 0 p = 1"
| "subtree_size ls (Suc k) p = Suc (sum_list (map (subtree_size ls k) (subdirs ls p)))"

definition queue_size :: "share \<Rightarrow> (string \<times> nat) list \<Rightarrow> nat" where
  "queue_size ls q =
     sum_list (map (\<lambda>(p, d). subtree_size ls (Suc NZBDAV_MAX_DIRECTORY_DEPTH - d) p) q)"

lemma scanEntries_queue:
  "queue (scanEntries req p d entries st) =
     queue st @ map (\<lambda>e. (nextPath p e, d + 1)) (filter entry_isDirectory entries)"
  by (induction entries arbitrary: st) (simp_all add: visitEntry_def Let_def)

lemma subtree_size_pos: "0 < subtree_size ls k p"
  by (cases k) simp_all

lemma queue_size_step:
  assumes "d \<le> NZBDAV_MAX_DIRECTORY_DEPTH" and "ls p = Some entries"
  shows "queue_size ls (rest @ map (\<lambda>e. (nextPath p e, d + 1)) (filter entry_isDirectory entries))
           < queue_size ls ((p, d) # rest)"
proof -
  have s: "Suc NZBDAV_MAX_DIRECTORY_DEPTH - d = Suc (NZBDAV_MAX_DIRECTORY_DEPTH - d)"
    using assms(1) by simp
  have "map (\<lambda>(p, d). subtree_size ls (Suc NZBDAV_MAX_DIRECTORY_DEPTH - d) p)
          (map (\<lambda>e. (nextPath p e, d + 1)) (filter entry_isDirectory entries)) =
        map (subtree_size ls (NZBDAV_MAX_DIRECTORY_DEPTH - d)) (subdirs ls p)"
    using assms(2) by (simp add: subdirs_def comp_def)
  then show ?thesis
    unfolding queue_size_def by (simp add: s)
qed

function bfs :: "share \<Rightarrow> requested_episode option \<Rightarrow> search_state \<Rightarrow> search_state" where
  "bfs ls requestedEpisode st =
     (case queue st of
        [] \<Rightarrow> st
      | (currentPath, depth) # rest \<Rightarrow>
          if depth > NZBDAV_MAX_DIRECTORY_DEPTH then bfs ls requestedEpisode (st\<lparr>queue := rest\<rparr>)
          else if currentPath \<in> set (visited st) then bfs ls requestedEpisode (st\<lparr>queue := rest\<rparr>)
          else
            (case ls currentPath of
               None \<Rightarrow>
                 bfs ls requestedEpisode
                   (st\<lparr>queue := rest, visited := currentPath # visited st,
                       listed := listed st @ [(currentPath, depth)]\<rparr>)
             | Some entries \<Rightarrow>
                 bfs ls requestedEpisode
                   (scanEntries requestedEpisode currentPath depth entries
                      (st\<lparr>queue := rest, visited := currentPath # visited st,
                          listed := listed st @ [(currentPath, depth)]\<rparr>))))"
  by pat_completeness auto
termination
proof (relation "measure (\<lambda>(ls, req, st). queue_size ls (queue st))")
  show "wf (measure (\<lambda>(ls, req, st). queue_size ls (queue st)))" by simp
next
  fix ls :: share and requestedEpisode :: "requested_episode option" and st :: search_state
    and x rest currentPath depth
  assume "queue st = x # rest" "(currentPath, depth) = x"
  then have q: "queue st = (currentPath, depth) # rest" by simp
  have dec: "queue_size ls rest < queue_size ls ((currentPath, depth) # rest)"
    unfolding queue_size_def by (simp add: subtree_size_pos)
  {
    show "((ls, requestedEpisode, st\<lparr>queue := rest\<rparr>), ls, requestedEpisode, st)
        \<in> measure (\<lambda>(ls, req, st). queue_size ls (queue st))"
      using q dec by simp
  }
  {
    show "((ls, requestedEpisode, st\<lparr>queue := rest\<rparr>), ls, requestedEpisode, st)
        \<in> measure (\<lambda>(ls, req, st). queue_size ls (queue st))"
      using q dec by simp
  }
  {
    show "((ls, requestedEpisode,
          st\<lparr>queue := rest, visited := currentPath # visited st,
             listed := listed st @ [(currentPath, depth)]\<rparr>), ls, requestedEpisode, st)
        \<in> measure (\<lambda>(ls, req, st). queue_size ls (queue st))"
      using q dec by simp
  }
  {
    fix entries
    assume "\<not> NZBDAV_MAX_DIRECTORY_DEPTH < depth" and "ls currentPath = Some entries"
    then show "((ls, requestedEpisode,
          scanEntries requestedEpisode currentPath depth entries
            (st\<lparr>queue := rest, visited := currentPath # visited st,
               listed := listed st @ [(currentPath, depth)]\<rparr>)), ls, requestedEpisode, st)
        \<in> measure (\<lambda>(ls, req, st). queue_size ls (queue st))"
      using q queue_size_step[of depth ls currentPath entries rest]
      by (simp add: scanEntries_queue)
  }
qed

declare bfs.simps [simp del]

text \<open>The state in which the loop of \<^verbatim>\<open>findBestVideoFile\<close> ends.\<close>

definition rootPath :: "string \<Rightarrow> string \<Rightarrow> string" where
  "rootPath cat jobName = normalizeNzbdavPath (''/content/'' @ cat @ ''/'' @ jobName)"

definition traversal ::
  "share \<Rightarrow> string \<Rightarrow> string \<Rightarrow> requested_episode option \<Rightarrow> search_state" where
  "traversal ls cat jobName requestedEpisode =
     bfs ls requestedEpisode
       \<lparr>queue = [(rootPath cat jobName, 0)], visited = [], bestMatch = None,
        bestEpisodeMatch = None, listed = [], found = []\<rparr>"

definition findBestVideoFile ::
  "share \<Rightarrow> string \<Rightarrow> string \<Rightarrow> requested_episode option \<Rightarrow> candidate option" where
  "findBestVideoFile ls cat jobName requestedEpisode =
     (let st = traversal ls cat jobName requestedEpisode
      in case bestEpisodeMatch st of Some c \<Rightarrow> Some c | None \<Rightarrow> bestMatch st)"

text \<open>
  Notions for stating the properties: the video files of a directory as candidates, the
  directories \<open>d\<close> levels below the root, a best element of a list of candidates, and
  the share on which every failing listing is an empty directory instead.
\<close>

definition isVideoEntry :: "dir_entry \<Rightarrow> bool" where
  "isVideoEntry entry =
     (\<not> entry_isDirectory entry \<and> entry_name entry \<noteq> [] \<and> isVideoFileName (entry_name entry))"

definition dir_candidates :: "requested_episode option \<Rightarrow> share \<Rightarrow> string \<Rightarrow> candidate list" where
  "dir_candidates req ls p =
     (case ls p of
        None \<Rightarrow> []
      | Some entries \<Rightarrow> map (mkCandidate req p) (filter isVideoEntry entries))"

fun level :: "share \<Rightarrow> string \<Rightarrow> nat \<Rightarrow> string list" where
  "level ls root 0 = [root]"
| "level ls root (Suc d) = concat (map (subdirs ls) (level ls root d))"

definition best_of :: "candidate list \<Rightarrow> candidate option \<Rightarrow> bool" where
  "best_of cs best =
     (case best of
        None \<Rightarrow> cs = []
      | Some b \<Rightarrow> b \<in> set cs \<and> (\<forall>c\<in>set cs. cand_size c \<le> cand_size b))"

definition failures_empty :: "share \<Rightarrow> share" where
  "failures_empty ls = (\<lambda>p. case ls p of None \<Rightarrow> Some [] | Some entries \<Rightarrow> Some entries)"

text \<open>What every round of the traversal keeps true, for the root \<open>root\<close> and a bound \<open>N\<close>.\<close>

definition trav_inv ::
  "share \<Rightarrow> requested_episode option \<Rightarrow> string \<Rightarrow> nat \<Rightarrow> search_state \<Rightarrow> bool" where
  "trav_inv ls req root N st =
     (best_of (found st) (bestMatch st) \<and>
      best_of (filter matchesEpisode (found st)) (bestEpisodeMatch st) \<and>
      found st = concat (map (\<lambda>(p, d). dir_candidates req ls p) (listed st)) \<and>
      visited st = rev (map fst (listed st)) \<and>
      distinct (visited st) \<and>
      (\<forall>(p, d)\<in>set (listed st). d \<le> NZBDAV_MAX_DIRECTORY_DEPTH) \<and>
      (\<forall>(p, d)\<in>set (queue st) \<union> set (listed st). p \<in> set (level ls root d)) \<and>
      length (listed st) + queue_size ls (queue st) \<le> N)"



definition demo_deep :: share where
  "demo_deep p =
     (if p = ''/content/Tv/Deep''
      then Some [\<lparr>entry_name = ''a'', entry_isDirectory = True, entry_size = None\<rparr>,
                 \<lparr>entry_name = ''a'', entry_isDirectory = True, entry_size = None\<rparr>,
                 \<lparr>entry_name = ''broken'', entry_isDirectory = True, entry_size = None\<rparr>,
                 \<lparr>entry_name = ''top.mkv'', entry_isDirectory = False, entry_size = Some 10\<rparr>]
      else if p = ''/content/Tv/Deep/broken'' then None
      else if p = ''/content/Tv/Deep/a/a/a/a/a/a/a''
      then Some [\<lparr>entry_name = ''a'', entry_isDirectory = True, entry_size = None\<rparr>,
                 \<lparr>entry_name = ''huge.mkv'', entry_isDirectory = False, entry_size = Some 999\<rparr>]
      else Some [\<lparr>entry_name = ''a'', entry_isDirectory = True, entry_size = None\<rparr>])"

section \<open>Requests, responses and the local file\<close>

definition toUpperChar :: "char \<Rightarrow> char" where
  "toUpperChar c =
     (case map_of (zip ''abcdefghijklmnopqrstuvwxyz'' ''ABCDEFGHIJKLMNOPQRSTUVWXYZ'') c of
        Some u \<Rightarrow> u
      | None \<Rightarrow> c)"

definition toUpperCase :: "string \<Rightarrow> string" where
  "toUpperCase s = map toUpperChar s"

text \<open>
  The inbound request: the method (\<^verbatim>\<open>undefined\<close> reads as \<open>None\<close>), the headers under
  their lower-case names, and the \<^verbatim>\<open>downloadUrl\<close> of the query.
\<close>

record request =
  req_method :: "string option"
  req_headers :: "(string \<times> string) list"
  req_downloadUrl :: "string option"

definition header :: "request \<Rightarrow> string \<Rightarrow> string option" where
  "header req name = map_of (req_headers req) name"

definition methodOf :: "request \<Rightarrow> string" where
  "methodOf req = toUpperCase (case orElse (req_method req) (Some ''GET'') of Some m \<Rightarrow> m | None \<Rightarrow> [])"

text \<open>
  The response object \<^verbatim>\<open>res\<close>: status, headers in the order set, what was written as
  body, and whether the headers have gone out and the response has ended. Of Express
  and Node the model takes what the code relies on. \<^verbatim>\<open>setHeader\<close> throws when the headers
  have been sent, when the name is not an HTTP token and when the value holds a
  character other than a tab and the characters with codes 32 to 126 and 128 to 255;
  otherwise it replaces a header of the same name (names compare without case).
  \<^verbatim>\<open>end\<close> sends the headers and ends the response; \<^verbatim>\<open>json\<close> sets the content type
  unless set, writes the object as body (no body in reply to a HEAD request) and ends.
  A number given as header value is sent as the language prints it.
\<close>

datatype payload = NoBody | Bytes "char list" | JsonError string | Text string

record response =
  statusCode :: nat
  headers :: "(string \<times> string) list"
  body :: payload
  headersSent :: bool
  finished :: bool

definition fresh_response :: response where
  "fresh_response = \<lparr>statusCode = 200, headers = [], body = NoBody, headersSent = False,
     finished = False\<rparr>"

definition getHeader :: "string \<Rightarrow> response \<Rightarrow> string option" where
  "getHeader name res = map_of (map (\<lambda>(k, v). (toLowerCase k, v)) (headers res)) (toLowerCase name)"

definition storeHeader :: "string \<Rightarrow> string \<Rightarrow> response \<Rightarrow> response" where
  "storeHeader name v res =
     res\<lparr>headers := filter (\<lambda>(k, _). toLowerCase k \<noteq> toLowerCase name) (headers res) @ [(name, v)]\<rparr>"

definition tokenChar :: "char \<Rightarrow> bool" where
  "tokenChar c =
     (c \<in> set ''abcdefghijklmnopqrstuvwxyzABCDEFGHIJKLMNOPQRSTUVWXYZ0123456789'' \<or>
      c \<in> set [CHR 0x5E, CHR 0x5F, CHR 0x60, CHR 0x2D, CHR 0x21, CHR 0x23, CHR 0x24, CHR 0x25,
                 CHR 0x26, CHR 0x27, CHR 0x2A, CHR 0x2B, CHR 0x2E, CHR 0x7C, CHR 0x7E])"

definition validHeaderName :: "string \<Rightarrow> bool" where
  "validHeaderName name = (name \<noteq> [] \<and> list_all tokenChar name)"

definition headerChar :: "char \<Rightarrow> bool" where
  "headerChar c =
     (c = CHR 0x09 \<or> (32 \<le> (of_char c :: nat) \<and> (of_char c :: nat) \<le> 126) \<or>
      128 \<le> (of_char c :: nat))"

definition validHeaderValue :: "string \<Rightarrow> bool" where
  "validHeaderValue v = list_all headerChar v"

definition setHeader :: "string \<Rightarrow> string \<Rightarrow> response \<Rightarrow> js_error + response" where
  "setHeader name v res =
     (if headersSent res
      then Inl (Error ''Cannot set headers after they are sent to the client'')
      else if \<not> validHeaderName name
      then Inl (Error (''Header name must be a valid HTTP token ['' @ [CHR 0x22] @ name @ [CHR 0x22] @ '']''))
      else if \<not> validHeaderValue v
      then Inl (Error (''Invalid character in header content ['' @ [CHR 0x22] @ name @ [CHR 0x22] @ '']''))
      else Inr (storeHeader name v res))"

text \<open>
  Calls of \<^verbatim>\<open>setHeader\<close> one after the other: the first that throws ends them, with the
  response as the calls before it left it. \<open>thenDo\<close> continues after such calls unless
  one threw.
\<close>

fun setHeaders :: "(string \<times> string) list \<Rightarrow> response \<Rightarrow> js_error option \<times> response" where
  "setHeaders [] res = (None, res)"
| "setHeaders ((name, v) # rest) res =
     (case setHeader name v res of
        Inl e \<Rightarrow> (Some e, res)
      | Inr res1 \<Rightarrow> setHeaders rest res1)"

definition thenDo ::
  "js_error option \<times> response \<Rightarrow> (response \<Rightarrow> (js_error + 'a) \<times> response) \<Rightarrow>
   (js_error + 'a) \<times> response" where
  "thenDo r k = (case r of (Some e, res) \<Rightarrow> (Inl e, res) | (None, res) \<Rightarrow> k res)"

definition status :: "nat \<Rightarrow> response \<Rightarrow> response" where
  "status c res = res\<lparr>statusCode := c\<rparr>"

definition end_response :: "response \<Rightarrow> response" where
  "end_response res = res\<lparr>headersSent := True, finished := True\<rparr>"

definition json_error :: "request \<Rightarrow> string \<Rightarrow> response \<Rightarrow> response" where
  "json_error req msg res =
     (let res1 = (if getHeader ''Content-Type'' res = None
                  then storeHeader ''Content-Type'' ''application/json; charset=utf-8'' res else res)
      in end_response (res1\<lparr>body := (if methodOf req = ''HEAD'' then NoBody else JsonError msg)\<rparr>))"

definition send_text :: "request \<Rightarrow> string \<Rightarrow> response \<Rightarrow> response" where
  "send_text req msg res =
     (let res1 = (if getHeader ''Content-Type'' res = None
                  then storeHeader ''Content-Type'' ''text/html; charset=utf-8'' res else res)
      in end_response (res1\<lparr>body := (if methodOf req = ''HEAD'' then NoBody else Text msg)\<rparr>))"

text \<open>
  How a \<^verbatim>\<open>pipeline\<close> into the response ends: all bytes delivered; the client closed the
  connection after some bytes (the rejection with code \<^verbatim>\<open>ERR_STREAM_PREMATURE_CLOSE\<close>);
  or another error after some bytes. The headers go out with the first byte.
\<close>

datatype pipe_outcome = Completed | ClosedEarly nat | Broken nat js_error

definition pipelineAsync :: "char list \<Rightarrow> pipe_outcome \<Rightarrow> response \<Rightarrow> js_error option \<times> response" where
  "pipelineAsync src how res =
     (case how of
        Completed \<Rightarrow> (None, res\<lparr>body := Bytes src, headersSent := True, finished := True\<rparr>)
      | ClosedEarly n \<Rightarrow>
          (None, res\<lparr>body := Bytes (take n src), headersSent := True, finished := True\<rparr>)
      | Broken n e \<Rightarrow>
          (Some e, res\<lparr>body := Bytes (take n src), headersSent := (take n src \<noteq> [])\<rparr>))"

text \<open>
  A file on the local disk as \<^verbatim>\<open>fs.stat\<close> and \<^verbatim>\<open>fs.createReadStream\<close> show it. Its size is
  the number of its bytes, which stays below \<open>2^53\<close>; \<open>file_mtime\<close> is the text that
  \<^verbatim>\<open>stats.mtime.toUTCString()\<close> gives. \<^verbatim>\<open>createReadStream\<close> with \<^verbatim>\<open>start\<close> and \<^verbatim>\<open>end\<close>
  reads the bytes from \<^verbatim>\<open>start\<close> to \<^verbatim>\<open>end\<close> inclusive; the platform allows only values
  from 0 on with \<^verbatim>\<open>start \<le> end\<close> and throws a range error, named here by its code,
  otherwise.
\<close>

record local_file =
  file_isFile :: bool
  file_mtime :: string
  file_bytes :: "char list"

definition createReadStream :: "local_file \<Rightarrow> int \<Rightarrow> int \<Rightarrow> js_error + char list" where
  "createReadStream f start end =
     (if start < 0 \<or> end < 0 \<or> start > end then Inl (Error ''ERR_OUT_OF_RANGE'')
      else Inr (take (nat (end - start + 1)) (drop (nat start) (file_bytes f))))"

section \<open>Serving a local file with ranges\<close>

text \<open>
  The test \<^verbatim>\<open>/^bytes=\d*-\d*$/\<close> together with the two \<^verbatim>\<open>split\<close>s: the digits before and
  after the dash, when the header has that shape.
\<close>

definition rangeSpec :: "string \<Rightarrow> (string \<times> string) option" where
  "rangeSpec h =
     (if take 6 h = ''bytes=''
      then (let rangeStart = takeWhile isDigit (drop 6 h)
            in case drop (length rangeStart) (drop 6 h) of
                 [] \<Rightarrow> None
               | c # rangeEnd \<Rightarrow>
                   if c = CHR ''-'' \<and> list_all isDigit rangeEnd then Some (rangeStart, rangeEnd)
                   else None)
      else None)"

text \<open>
  \<^verbatim>\<open>Number.parseInt\<close> on a string of decimal digits: the number that the value written
  becomes, \<open>None\<close> when that is \<^verbatim>\<open>Infinity\<close> (from about 309 digits on).
\<close>

definition digitValue :: "char \<Rightarrow> nat" where
  "digitValue c = length (takeWhile (\<lambda>d. d \<noteq> c) ''0123456789'')"

definition digitsValue :: "string \<Rightarrow> nat" where
  "digitsValue ds = foldl (\<lambda>n c. 10 * n + digitValue c) 0 ds"

definition parseInt :: "string \<Rightarrow> nat option" where
  "parseInt ds = toDouble (digitsValue ds)"

text \<open>
  The variables \<^verbatim>\<open>start\<close> and \<^verbatim>\<open>end\<close> of \<^verbatim>\<open>streamFileResponse\<close> for a header of the
  right shape: a bound that is given and parses to a finite number replaces the initial
  value (0 and the last byte); then \<^verbatim>\<open>end\<close> is clamped.
\<close>

definition requestedStart :: "string \<Rightarrow> int" where
  "requestedStart rangeStart =
     (if rangeStart \<noteq> []
      then (case parseInt rangeStart of Some parsedStart \<Rightarrow> int parsedStart | None \<Rightarrow> 0)
      else 0)"

definition requestedEnd :: "int \<Rightarrow> string \<Rightarrow> int" where
  "requestedEnd totalSize rangeEnd =
     (if rangeEnd \<noteq> []
      then (case parseInt rangeEnd of Some parsedEnd \<Rightarrow> int parsedEnd | None \<Rightarrow> totalSize - 1)
      else totalSize - 1)"

definition clampEnd :: "int \<Rightarrow> int \<Rightarrow> int \<Rightarrow> int" where
  "clampEnd totalSize start end0 =
     (if end0 \<ge> totalSize \<or> end0 < start then totalSize - 1 else end0)"

text \<open>
  \<^verbatim>\<open>streamFileResponse\<close>. The result is what the function returns (\<open>Inr\<close>) or throws
  (\<open>Inl\<close>), with the response as it then is.
\<close>

definition contentRange :: "int \<Rightarrow> int \<Rightarrow> int \<Rightarrow> string" where
  "contentRange start end totalSize =
     ''bytes '' @ numberToString start @ ''-'' @ numberToString end @ ''/'' @ numberToString totalSize"

definition piped :: "char list \<Rightarrow> pipe_outcome \<Rightarrow> response \<Rightarrow> (js_error + bool) \<times> response" where
  "piped readStream how res =
     (case pipelineAsync readStream how res of
        (None, res1) \<Rightarrow> (Inr True, res1)
      | (Some e, res1) \<Rightarrow> (Inl e, res1))"

definition streamFileResponse ::
  "request \<Rightarrow> response \<Rightarrow> local_file option \<Rightarrow> bool \<Rightarrow> pipe_outcome \<Rightarrow> (js_error + bool) \<times> response" where
  "streamFileResponse req res stats emulateHead how =
     (case stats of
        None \<Rightarrow> (Inr False, res)
      | Some f \<Rightarrow>
          if \<not> file_isFile f then (Inr False, res)
          else
            (let totalSize = int (length (file_bytes f))
             in thenDo (setHeaders [(''Accept-Ranges'', ''bytes''),
                                    (''Last-Modified'', file_mtime f),
                                    (''Content-Type'', ''application/octet-stream'')] res)
                  (\<lambda>res1.
                     if emulateHead
                     then thenDo (setHeaders [(''Content-Length'', numberToString totalSize)] res1)
                            (\<lambda>res2. (Inr True, end_response (status 200 res2)))
                     else
                       (case (case header req ''range'' of
                                None \<Rightarrow> None
                              | Some h \<Rightarrow> if h = [] then None else rangeSpec h) of
                          None \<Rightarrow>
                            (case createReadStream f 0 (totalSize - 1) of
                               Inl e \<Rightarrow> (Inl e, res1)
                             | Inr readStream \<Rightarrow>
                                 thenDo (setHeaders [(''Content-Length'', numberToString totalSize)]
                                           (status 200 res1))
                                   (piped readStream how))
                        | Some (rangeStart, rangeEnd) \<Rightarrow>
                            (let start = requestedStart rangeStart
                             in if start \<ge> totalSize
                                then thenDo (setHeaders [(''Content-Range'',
                                                          ''bytes */'' @ numberToString totalSize)]
                                               (status 416 res1))
                                       (\<lambda>res2. (Inr True, end_response res2))
                                else
                                  (let end = clampEnd totalSize start (requestedEnd totalSize rangeEnd)
                                   in case createReadStream f start end of
                                        Inl e \<Rightarrow> (Inl e, res1)
                                      | Inr readStream \<Rightarrow>
                                          thenDo (setHeaders
                                                    [(''Content-Range'', contentRange start end totalSize),
                                                     (''Content-Length'', numberToString (end - start + 1))]
                                                    (status 206 res1))
                                            (piped readStream how)))))))"

definition demo_file :: local_file where
  "demo_file = \<lparr>file_isFile = True, file_mtime = ''Thu, 01 Jan 2026 00:00:00 GMT'',
     file_bytes = replicate 1000 (CHR ''x'')\<rparr>"

text \<open>A number of 310 digits: too large to be a finite number.\<close>

definition demo_huge :: string where
  "demo_huge = CHR ''1'' # replicate 309 (CHR ''0'')"

definition demo_request :: "string \<Rightarrow> string option \<Rightarrow> request" where
  "demo_request m rangeHeader =
     \<lparr>req_method = Some m,
      req_headers = (case rangeHeader of None \<Rightarrow> [] | Some r \<Rightarrow> [(''range'', r)]),
      req_downloadUrl = Some ''https://indexer.example/nzb/1''\<rparr>"

section \<open>The fallback stream, the proxy and the handler\<close>

text \<open>
  \<^verbatim>\<open>streamFailureVideo\<close>, given what \<^verbatim>\<open>safeStat(FAILURE_VIDEO_PATH)\<close> found (\<open>None\<close> when
  the file is missing). The failure reason comes from the download manager and may be
  any text, so the \<^verbatim>\<open>setHeader\<close> that carries it can throw.
\<close>

definition failureReason :: "js_error \<Rightarrow> string" where
  "failureReason err =
     (case orElse (orElse (failureMessage err) (Some (message err))) (Some ''NZBDav download failed'') of
        Some m \<Rightarrow> m
      | None \<Rightarrow> [])"

definition streamFailureVideo ::
  "request \<Rightarrow> response \<Rightarrow> local_file option \<Rightarrow> js_error \<Rightarrow> pipe_outcome \<Rightarrow> (js_error + bool) \<times> response" where
  "streamFailureVideo req res stats err how =
     (case stats of
        None \<Rightarrow> (Inr False, res)
      | Some f \<Rightarrow>
          if \<not> file_isFile f then (Inr False, res)
          else
            (let emulateHead = (methodOf req = ''HEAD'')
             in thenDo (if \<not> headersSent res
                        then setHeaders [(''X-NZBDav-Failure'', failureReason err)] res
                        else (None, res))
                  (\<lambda>res1. streamFileResponse req res1 (Some f) emulateHead how)))"

text \<open>
  The request \<^verbatim>\<open>proxyNzbdavStream\<close> sends to the file share and the share's answer. Of the
  target URL the model keeps the normalized path (the base URL, the encoding of the
  segments and the credentials play no part below). The HTTP client rejects for a status
  of 500 or above and for a network error; otherwise it resolves with the status, the
  headers and, as asked by \<^verbatim>\<open>responseType: 'stream'\<close>, a readable stream of the body, so
  the test for a missing stream in the source is never true and has no branch here.
\<close>

record proxied_request =
  px_method :: string
  px_path :: string
  px_headers :: "(string \<times> string) list"

record upstream_response =
  up_status :: nat
  up_headers :: "(string \<times> string) list"
  up_data :: "char list"

definition passThrough :: "(string \<times> string) list" where
  "passThrough = [(''range'', ''Range''), (''if-range'', ''If-Range''), (''accept'', ''Accept''),
     (''accept-language'', ''Accept-Language''), (''accept-encoding'', ''Accept-Encoding''),
     (''user-agent'', ''User-Agent'')]"

definition forwardHeaders :: "request \<Rightarrow> bool \<Rightarrow> (string \<times> string) list" where
  "forwardHeaders req emulateHead =
     (let hs = concat (map (\<lambda>(inName, outName).
                  if truthy (header req inName) then [(outName, the (header req inName))] else [])
                passThrough)
      in if emulateHead \<and> \<not> truthy (map_of hs ''Range'') then hs @ [(''Range'', ''bytes=0-0'')] else hs)"

definition proxiedRequest :: "request \<Rightarrow> string \<Rightarrow> proxied_request" where
  "proxiedRequest req path =
     \<lparr>px_method = (if methodOf req = ''HEAD'' then ''GET'' else methodOf req),
      px_path = normalizeNzbdavPath path,
      px_headers = forwardHeaders req (methodOf req = ''HEAD'')\<rparr>"

definition relayHeaders :: "(string \<times> string) list \<Rightarrow> response \<Rightarrow> js_error option \<times> response" where
  "relayHeaders hs res =
     setHeaders (filter (\<lambda>(key, _). toLowerCase key \<noteq> ''transfer-encoding'') hs) res"

definition proxyNzbdavStream ::
  "request \<Rightarrow> response \<Rightarrow> string \<Rightarrow> (proxied_request \<Rightarrow> js_error + upstream_response) \<Rightarrow>
   pipe_outcome \<Rightarrow> js_error option \<times> response" where
  "proxyNzbdavStream req res path fetch how =
     (if methodOf req \<notin> set [''GET'', ''HEAD'']
      then (None, send_text req ''Method Not Allowed'' (status 405 res))
      else
        (case fetch (proxiedRequest req path) of
           Inl e \<Rightarrow> (Some e, res)
         | Inr nzbdavResponse \<Rightarrow>
             (case relayHeaders (up_headers nzbdavResponse) (status (up_status nzbdavResponse) res) of
                (Some e, res1) \<Rightarrow> (Some e, res1)
              | (None, res1) \<Rightarrow>
                  if methodOf req = ''HEAD'' then (None, end_response res1)
                  else pipelineAsync (up_data nzbdavResponse) how res1)))"

text \<open>
  \<^verbatim>\<open>handleNzbdavStream\<close>. The surroundings of one request: how the awaited
  \<^verbatim>\<open>getOrCreateNzbdavStream\<close> ends, the file share, the fallback file on disk, and how the
  two pipelines end. The result is the response, with the error when one leaves the
  handler uncaught.
\<close>

record handler_env =
  resolved :: "js_error + stream_data"
  upstream :: "proxied_request \<Rightarrow> js_error + upstream_response"
  upstream_pipe :: pipe_outcome
  fallback :: "local_file option"
  fallback_pipe :: pipe_outcome

definition errorStatus :: "js_error \<Rightarrow> nat" where
  "errorStatus err = (case response_status err of None \<Rightarrow> 502 | Some c \<Rightarrow> if c = 0 then 502 else c)"

definition tryBlock :: "request \<Rightarrow> handler_env \<Rightarrow> js_error option \<times> response" where
  "tryBlock req env =
     (case resolved env of
        Inl e \<Rightarrow> (Some e, fresh_response)
      | Inr streamData \<Rightarrow>
          proxyNzbdavStream req fresh_response (sd_viewPath streamData) (upstream env) (upstream_pipe env))"

definition catchBlock :: "request \<Rightarrow> handler_env \<Rightarrow> js_error \<Rightarrow> response \<Rightarrow> js_error option \<times> response" where
  "catchBlock req env err res =
     (if isNzbdavFailure err
      then (case streamFailureVideo req res (fallback env) err (fallback_pipe env) of
              (Inl e, res1) \<Rightarrow> (Some e, res1)
            | (Inr served, res1) \<Rightarrow>
                if \<not> served \<and> \<not> headersSent res1
                then (None, json_error req
                        (case orElse (failureMessage err) (Some (message err)) of Some m \<Rightarrow> m | None \<Rightarrow> [])
                        (status 502 res1))
                else if \<not> served then (None, end_response res1)
                else (None, res1))
      else if \<not> headersSent res
      then (None, json_error req (message err) (status (errorStatus err) res))
      else (None, end_response res))"

definition handleNzbdavStream :: "request \<Rightarrow> handler_env \<Rightarrow> js_error option \<times> response" where
  "handleNzbdavStream req env =
     (if \<not> truthy (req_downloadUrl req)
      then (None, json_error req ''downloadUrl query parameter is required'' (status 400 fresh_response))
      else (case tryBlock req env of
              (None, res) \<Rightarrow> (None, res)
            | (Some err, res) \<Rightarrow> catchBlock req env err res))"

text \<open>Sample surroundings: a share holding one file of 1000 bytes that honours \<^verbatim>\<open>Range\<close>.\<close>

definition demo_webdav :: "proxied_request \<Rightarrow> js_error + upstream_response" where
  "demo_webdav px =
     (if map_of (px_headers px) ''Range'' = Some ''bytes=0-0''
      then Inr \<lparr>up_status = 206,
                up_headers = [(''content-type'', ''video/x-matroska''), (''accept-ranges'', ''bytes''),
                              (''content-range'', ''bytes 0-0/1000''), (''content-length'', ''1'')],
                up_data = ''x''\<rparr>
      else Inr \<lparr>up_status = 200,
                up_headers = [(''content-type'', ''video/x-matroska''), (''accept-ranges'', ''bytes''),
                              (''content-length'', ''1000'')],
                up_data = replicate 1000 (CHR ''x'')\<rparr>)"


section \<open>The job submitter and the build pipeline\<close>

text \<open>
  The reply to the \<^verbatim>\<open>addurl\<close> call: of the body the code reads \<^verbatim>\<open>status\<close>, \<^verbatim>\<open>error\<close>, the
  id under \<^verbatim>\<open>nzo_id\<close>, \<^verbatim>\<open>nzoId\<close> or \<^verbatim>\<open>NzoId\<close>, the array \<^verbatim>\<open>nzo_ids\<close> and the array
  \<^verbatim>\<open>queue\<close> (\<open>None\<close> when the property is not an array).
\<close>

record addurl_data =
  add_status :: bool
  add_error :: "string option"
  add_ids :: js_object
  add_nzo_ids :: "string list option"
  add_queue :: "js_object list option"

datatype addurl_reply = AddRejected js_error | AddResponse nat addurl_data

definition firstOf :: "'a list option \<Rightarrow> 'a option" where
  "firstOf xs = (case xs of None \<Rightarrow> None | Some [] \<Rightarrow> None | Some (x # _) \<Rightarrow> Some x)"

definition addNzbToNzbdav :: "config \<Rightarrow> addurl_reply \<Rightarrow> string \<Rightarrow> string \<Rightarrow> js_error + string" where
  "addNzbToNzbdav cfg rep nzbUrl cat =
     (case ensureNzbdavConfigured cfg of
        Some e \<Rightarrow> Inl e
      | None \<Rightarrow>
          if nzbUrl = [] then Inl (Error ''Missing NZB download URL'')
          else if cat = [] then Inl (Error ''Missing NZBDav category'')
          else
            (case rep of
               AddRejected e \<Rightarrow> Inl e
             | AddResponse http d \<Rightarrow>
                 if \<not> add_status d
                 then Inl (Error (''[NZBDAV] Failed to queue NZB: '' @
                        (if truthy (add_error d) then the (add_error d)
                         else ''addurl returned status '' @ dec http)))
                 else
                   (let nzo = orElse (orElse (entryId (add_ids d)) (firstOf (add_nzo_ids d)))
                                (case firstOf (add_queue d) of
                                   None \<Rightarrow> None
                                 | Some q \<Rightarrow> field q ''nzo_id'')
                    in if \<not> truthy nzo
                       then Inl (Error ''[NZBDAV] addurl succeeded but no nzo_id returned'')
                       else Inr (the nzo))))"

text \<open>
  \<^verbatim>\<open>buildNzbdavStream\<close> in its surroundings: the configuration, the manager's replies, the
  time at which polling starts, and the file share.
\<close>

record build_env =
  be_config :: config
  be_addurl :: addurl_reply
  be_history :: poll_env
  be_start :: nat
  be_share :: share

definition slotCategory :: "js_object \<Rightarrow> string \<Rightarrow> string" where
  "slotCategory slot cat =
     (case orElse (orElse (field slot ''category'') (field slot ''Category'')) (Some cat) of
        Some v \<Rightarrow> v
      | None \<Rightarrow> [])"

definition slotJobName :: "js_object \<Rightarrow> string option" where
  "slotJobName slot =
     orElse (orElse (orElse (field slot ''job_name'') (field slot ''JobName'')) (field slot ''name''))
       (field slot ''Name'')"

definition locateStream ::
  "build_env \<Rightarrow> string \<Rightarrow> js_object \<Rightarrow> string \<Rightarrow> requested_episode option \<Rightarrow> js_error + stream_data" where
  "locateStream env nzo slot cat requestedEpisode =
     (if \<not> truthy (slotJobName slot)
      then Inl (Error ''[NZBDAV] Unable to determine job name from history'')
      else
        (case findBestVideoFile (be_share env) (slotCategory slot cat) (the (slotJobName slot))
                requestedEpisode of
           None \<Rightarrow> Inl (Error ''[NZBDAV] No playable video files found after mounting NZB'')
         | Some bestFile \<Rightarrow>
             Inr \<lparr>sd_nzoId = nzo, sd_category = slotCategory slot cat,
                  sd_jobName = the (slotJobName slot), sd_viewPath = viewPath bestFile,
                  sd_size = cand_size bestFile\<rparr>))"

definition buildNzbdavStream ::
  "build_env \<Rightarrow> string \<Rightarrow> string \<Rightarrow> string \<Rightarrow> requested_episode option \<Rightarrow> js_error + stream_data" where
  "buildNzbdavStream env url cat ttl requestedEpisode =
     (case (case addNzbToNzbdav (be_config env) (be_addurl env) url cat of
              Inl e \<Rightarrow> Inl e
            | Inr nzo \<Rightarrow>
                (case waitForNzbdavHistorySlot (be_config env) (be_history env) (be_start env) nzo cat of
                   Inl e \<Rightarrow> Inl e
                 | Inr slot \<Rightarrow> locateStream env nzo slot cat requestedEpisode)) of
        Inl err \<Rightarrow>
          Inl (if isNzbdavFailure err
               then err\<lparr>downloadUrl := Some url, category := Some cat, title := Some ttl\<rparr>
               else err)
      | Inr streamData \<Rightarrow> Inr streamData)"

definition demo_movie_share :: share where
  "demo_movie_share p =
     (if p = ''/content/Movies/My.Movie.2024''
      then Some [\<lparr>entry_name = ''My.Movie.2024.mkv'', entry_isDirectory = False,
                  entry_size = Some 4200000000\<rparr>]
      else None)"

definition demo_build :: "string \<Rightarrow> build_env" where
  "demo_build final =
     \<lparr>be_config = demo_cfg,
      be_addurl = AddResponse 200 \<lparr>add_status = True, add_error = None,
                    add_ids = [(''nzo_id'', ''nzo1'')], add_nzo_ids = None, add_queue = None\<rparr>,
      be_history = demo_env final 30, be_start = 1000, be_share = demo_movie_share\<rparr>"

chapter \<open>Verified properties\<close>

section \<open>Properties of the cache\<close>


lemma cleanup_pending:
  "cleanupNzbdavCache now c k = Some (Pending p) \<longleftrightarrow> c k = Some (Pending p)"
  by (auto simp: cleanupNzbdavCache_def expired_def split: option.splits if_splits)

lemma cleanup_None_or_same:
  "cleanupNzbdavCache now c k = None \<or> cleanupNzbdavCache now c k = c k"
  by (auto simp: cleanupNzbdavCache_def split: option.splits)

lemma cache_inv_init: "cache_inv (init_state t0)"
  by (simp add: cache_inv_def init_state_def)

lemma cache_invI:
  assumes "\<And>p k. builds s p = Some k \<Longrightarrow> nzbdavStreamCache s k = Some (Pending p)"
    and "\<And>p k. nzbdavStreamCache s k = Some (Pending p) \<Longrightarrow> builds s p = Some k"
    and "\<And>p k. builds s p = Some k \<Longrightarrow> p < next_promise s"
  shows "cache_inv s"
  using assms unfolding cache_inv_def by blast

lemma cache_invD1: "cache_inv s \<Longrightarrow> builds s p = Some k \<Longrightarrow> nzbdavStreamCache s k = Some (Pending p)"
  unfolding cache_inv_def by blast

lemma cache_invD2: "cache_inv s \<Longrightarrow> nzbdavStreamCache s k = Some (Pending p) \<Longrightarrow> builds s p = Some k"
  unfolding cache_inv_def by blast

lemma cache_invD3: "cache_inv s \<Longrightarrow> builds s p = Some k \<Longrightarrow> p < next_promise s"
  unfolding cache_inv_def by blast

lemma request_hit:
  assumes "cleanupNzbdavCache (clock s) (nzbdavStreamCache s) k = Some e"
  shows "snd (getOrCreateNzbdavStream k s) =
           s\<lparr>nzbdavStreamCache := cleanupNzbdavCache (clock s) (nzbdavStreamCache s)\<rparr>"
  using assms by (cases e) (simp_all add: getOrCreateNzbdavStream_def Let_def)

lemma request_miss:
  assumes "cleanupNzbdavCache (clock s) (nzbdavStreamCache s) k = None"
  shows "getOrCreateNzbdavStream k s =
           (Awaits (next_promise s),
            s\<lparr>nzbdavStreamCache := (cleanupNzbdavCache (clock s) (nzbdavStreamCache s))(k \<mapsto> Pending (next_promise s)),
              builds := (builds s)(next_promise s \<mapsto> k),
              next_promise := Suc (next_promise s),
              builder_calls := builder_calls s @ [k]\<rparr>)"
  using assms by (simp add: getOrCreateNzbdavStream_def Let_def)

lemma cache_inv_cleanup:
  assumes "cache_inv s"
  shows "cache_inv (s\<lparr>nzbdavStreamCache := cleanupNzbdavCache (clock s) (nzbdavStreamCache s)\<rparr>)"
proof (rule cache_invI)
  fix p k
  show "builds (s\<lparr>nzbdavStreamCache := cleanupNzbdavCache (clock s) (nzbdavStreamCache s)\<rparr>) p = Some k \<Longrightarrow>
     nzbdavStreamCache (s\<lparr>nzbdavStreamCache := cleanupNzbdavCache (clock s) (nzbdavStreamCache s)\<rparr>) k = Some (Pending p)"
    using cache_invD1[OF assms, of p k] by (simp add: cleanup_pending)
  show "nzbdavStreamCache (s\<lparr>nzbdavStreamCache := cleanupNzbdavCache (clock s) (nzbdavStreamCache s)\<rparr>) k = Some (Pending p) \<Longrightarrow>
     builds (s\<lparr>nzbdavStreamCache := cleanupNzbdavCache (clock s) (nzbdavStreamCache s)\<rparr>) p = Some k"
    using cache_invD2[OF assms, of k p] by (simp add: cleanup_pending)
  show "builds (s\<lparr>nzbdavStreamCache := cleanupNzbdavCache (clock s) (nzbdavStreamCache s)\<rparr>) p = Some k \<Longrightarrow>
     p < next_promise (s\<lparr>nzbdavStreamCache := cleanupNzbdavCache (clock s) (nzbdavStreamCache s)\<rparr>)"
    using cache_invD3[OF assms, of p k] by simp
qed

lemma cache_inv_request:
  assumes "cache_inv s"
  shows "cache_inv (snd (getOrCreateNzbdavStream k s))"
proof (cases "cleanupNzbdavCache (clock s) (nzbdavStreamCache s) k")
  case (Some e)
  then show ?thesis using assms by (simp add: request_hit cache_inv_cleanup)
next
  case None
  let ?c = "cleanupNzbdavCache (clock s) (nzbdavStreamCache s)"
  let ?n = "next_promise s"
  have fresh: "builds s ?n = None"
    using cache_invD3[OF assms, of ?n] by (cases "builds s ?n") auto
  show ?thesis
    unfolding request_miss[OF None] snd_conv
  proof (rule cache_invI)
    fix p k'
    assume "builds (s\<lparr>nzbdavStreamCache := ?c(k \<mapsto> Pending ?n), builds := (builds s)(?n \<mapsto> k),
              next_promise := Suc ?n, builder_calls := builder_calls s @ [k]\<rparr>) p = Some k'"
    then have h: "((builds s)(?n \<mapsto> k)) p = Some k'" by simp
    show "nzbdavStreamCache (s\<lparr>nzbdavStreamCache := ?c(k \<mapsto> Pending ?n), builds := (builds s)(?n \<mapsto> k),
              next_promise := Suc ?n, builder_calls := builder_calls s @ [k]\<rparr>) k' = Some (Pending p)"
    proof (cases "p = ?n")
      case True
      then show ?thesis using h by simp
    next
      case False
      then have b: "builds s p = Some k'" using h by simp
      then have "nzbdavStreamCache s k' = Some (Pending p)" by (rule cache_invD1[OF assms])
      then have c: "?c k' = Some (Pending p)" by (simp add: cleanup_pending)
      then have "k' \<noteq> k" using None by auto
      then show ?thesis using c by simp
    qed
    show "p < next_promise (s\<lparr>nzbdavStreamCache := ?c(k \<mapsto> Pending ?n), builds := (builds s)(?n \<mapsto> k),
              next_promise := Suc ?n, builder_calls := builder_calls s @ [k]\<rparr>)"
      using h cache_invD3[OF assms, of p k'] by (cases "p = ?n") auto
  next
    fix p k'
    assume "nzbdavStreamCache (s\<lparr>nzbdavStreamCache := ?c(k \<mapsto> Pending ?n), builds := (builds s)(?n \<mapsto> k),
              next_promise := Suc ?n, builder_calls := builder_calls s @ [k]\<rparr>) k' = Some (Pending p)"
    then have h: "(?c(k \<mapsto> Pending ?n)) k' = Some (Pending p)" by simp
    show "builds (s\<lparr>nzbdavStreamCache := ?c(k \<mapsto> Pending ?n), builds := (builds s)(?n \<mapsto> k),
              next_promise := Suc ?n, builder_calls := builder_calls s @ [k]\<rparr>) p = Some k'"
    proof (cases "k' = k")
      case True
      then show ?thesis using h by simp
    next
      case False
      then have "?c k' = Some (Pending p)" using h by simp
      then have "nzbdavStreamCache s k' = Some (Pending p)" by (simp add: cleanup_pending)
      then have b: "builds s p = Some k'" by (rule cache_invD2[OF assms])
      then have "p \<noteq> ?n" using fresh by auto
      then show ?thesis using b by simp
    qed
  qed
qed


lemma settle_idle: "builds s p = None \<Longrightarrow> settle p r s = s"
  by (simp add: settle_def)

lemma settle_ready:
  "builds s p = Some key \<Longrightarrow> settle p (Inr d) s =
     s\<lparr>builds := (builds s)(p := None),
       nzbdavStreamCache := (nzbdavStreamCache s)(key \<mapsto> Ready d (commit_expiry (clock s)))\<rparr>"
  by (simp add: settle_def)

lemma settle_failed:
  "builds s p = Some key \<Longrightarrow> isNzbdavFailure e \<Longrightarrow> settle p (Inl e) s =
     s\<lparr>builds := (builds s)(p := None),
       nzbdavStreamCache := (nzbdavStreamCache s)(key \<mapsto> Failed e (commit_expiry (clock s)))\<rparr>"
  by (simp add: settle_def)

lemma settle_evict:
  "builds s p = Some key \<Longrightarrow> \<not> isNzbdavFailure e \<Longrightarrow> settle p (Inl e) s =
     s\<lparr>builds := (builds s)(p := None),
       nzbdavStreamCache := (nzbdavStreamCache s)(key := None)\<rparr>"
  by (simp add: settle_def)

text \<open>A settling promise replaces or removes its own pending entry and touches nothing else.\<close>

lemma settle_cache:
  assumes "builds s p = Some key"
  shows "\<exists>v. settle p r s = s\<lparr>builds := (builds s)(p := None),
            nzbdavStreamCache := (nzbdavStreamCache s)(key := v)\<rparr> \<and>
          (\<forall>q. v \<noteq> Some (Pending q))"
proof (cases r)
  case (Inl e)
  show ?thesis
  proof (cases "isNzbdavFailure e")
    case True
    show ?thesis
      unfolding Inl settle_failed[OF assms True]
      by (rule exI[of _ "Some (Failed e (commit_expiry (clock s)))"]) simp
  next
    case False
    show ?thesis
      unfolding Inl settle_evict[OF assms False]
      by (rule exI[of _ None]) simp
  qed
next
  case (Inr d)
  show ?thesis
    unfolding Inr settle_ready[OF assms]
    by (rule exI[of _ "Some (Ready d (commit_expiry (clock s)))"]) simp
qed

lemma cache_inv_settle:
  assumes "cache_inv s"
  shows "cache_inv (settle p r s)"
proof (cases "builds s p")
  case None
  then show ?thesis using assms by (simp add: settle_idle)
next
  case (Some key)
  from settle_cache[OF Some, of r] obtain v where
    eq: "settle p r s = s\<lparr>builds := (builds s)(p := None),
            nzbdavStreamCache := (nzbdavStreamCache s)(key := v)\<rparr>"
    and v: "\<And>q. v \<noteq> Some (Pending q)" by blast
  have keyp: "nzbdavStreamCache s key = Some (Pending p)"
    by (rule cache_invD1[OF assms Some])
  show ?thesis
    unfolding eq
  proof (rule cache_invI)
    fix q k
    assume "builds (s\<lparr>builds := (builds s)(p := None),
            nzbdavStreamCache := (nzbdavStreamCache s)(key := v)\<rparr>) q = Some k"
    then have qp: "q \<noteq> p" and b: "builds s q = Some k" by (auto split: if_splits)
    have c: "nzbdavStreamCache s k = Some (Pending q)" by (rule cache_invD1[OF assms b])
    have "k \<noteq> key" using c keyp qp by auto
    then show "nzbdavStreamCache (s\<lparr>builds := (builds s)(p := None),
            nzbdavStreamCache := (nzbdavStreamCache s)(key := v)\<rparr>) k = Some (Pending q)"
      using c by simp
    show "q < next_promise (s\<lparr>builds := (builds s)(p := None),
            nzbdavStreamCache := (nzbdavStreamCache s)(key := v)\<rparr>)"
      using cache_invD3[OF assms b] by simp
  next
    fix q k
    assume "nzbdavStreamCache (s\<lparr>builds := (builds s)(p := None),
            nzbdavStreamCache := (nzbdavStreamCache s)(key := v)\<rparr>) k = Some (Pending q)"
    then have h: "((nzbdavStreamCache s)(key := v)) k = Some (Pending q)" by simp
    have kk: "k \<noteq> key" using h v by (cases "k = key") auto
    then have c: "nzbdavStreamCache s k = Some (Pending q)" using h by simp
    have b: "builds s q = Some k" by (rule cache_invD2[OF assms c])
    have "q \<noteq> p" using b Some kk by auto
    then show "builds (s\<lparr>builds := (builds s)(p := None),
            nzbdavStreamCache := (nzbdavStreamCache s)(key := v)\<rparr>) q = Some k"
      using b by simp
  qed
qed

lemma cache_inv_tick: "cache_inv (s\<lparr>clock := t\<rparr>) = cache_inv s"
  by (simp add: cache_inv_def)

lemma cache_inv_step: "cache_inv s \<Longrightarrow> cache_inv (step e s)"
  by (cases e) (simp_all add: cache_inv_request cache_inv_settle cache_inv_tick)

lemma cache_inv_run: "cache_inv s \<Longrightarrow> cache_inv (run es s)"
  by (induction es arbitrary: s) (simp_all add: cache_inv_step)


lemma cleanup_not_expired:
  "\<not> expired now e \<Longrightarrow> c k = Some e \<Longrightarrow> cleanupNzbdavCache now c k = Some e"
  by (simp add: cleanupNzbdavCache_def)

lemma cleanup_expired:
  "expired now e \<Longrightarrow> c k = Some e \<Longrightarrow> cleanupNzbdavCache now c k = None"
  by (simp add: cleanupNzbdavCache_def NZBDAV_CACHE_TTL_MS_def)

lemma cleanup_Some:
  "cleanupNzbdavCache now c k = Some e \<Longrightarrow> c k = Some e"
  by (auto simp: cleanupNzbdavCache_def split: option.splits if_splits)

lemma cleanup_absent: "c k = None \<Longrightarrow> cleanupNzbdavCache now c k = None"
  by (simp add: cleanupNzbdavCache_def)

lemma cleanup_result_fresh:
  "cleanupNzbdavCache now c k = Some e \<Longrightarrow> \<not> expired now e"
  by (auto simp: cleanupNzbdavCache_def NZBDAV_CACHE_TTL_MS_def split: option.splits if_splits)

lemma request_cache_other:
  "k' \<noteq> k \<Longrightarrow>
   nzbdavStreamCache (snd (getOrCreateNzbdavStream k' s)) k =
     cleanupNzbdavCache (clock s) (nzbdavStreamCache s) k"
  by (cases "cleanupNzbdavCache (clock s) (nzbdavStreamCache s) k'")
     (simp_all add: request_hit request_miss)

lemma request_cache_hit:
  "cleanupNzbdavCache (clock s) (nzbdavStreamCache s) k = Some e \<Longrightarrow>
   nzbdavStreamCache (snd (getOrCreateNzbdavStream k s)) k = Some e"
  by (simp add: request_hit)

lemma request_clock: "clock (snd (getOrCreateNzbdavStream k s)) = clock s"
  by (cases "cleanupNzbdavCache (clock s) (nzbdavStreamCache s) k")
     (simp_all add: request_hit request_miss)

lemma request_calls_hit:
  "cleanupNzbdavCache (clock s) (nzbdavStreamCache s) k = Some e \<Longrightarrow>
   builder_calls (snd (getOrCreateNzbdavStream k s)) = builder_calls s"
  by (simp add: request_hit)

lemma request_calls_other:
  "k' \<noteq> k \<Longrightarrow>
   count_list (builder_calls (snd (getOrCreateNzbdavStream k' s))) k = count_list (builder_calls s) k"
  by (cases "cleanupNzbdavCache (clock s) (nzbdavStreamCache s) k'")
     (simp_all add: request_hit request_miss)

lemma settle_calls: "builder_calls (settle p r s) = builder_calls s"
proof (cases "builds s p")
  case None
  then show ?thesis by (simp add: settle_idle)
next
  case (Some key)
  from settle_cache[OF Some, of r] show ?thesis by auto
qed

lemma settle_clock: "clock (settle p r s) = clock s"
proof (cases "builds s p")
  case None
  then show ?thesis by (simp add: settle_idle)
next
  case (Some key)
  from settle_cache[OF Some, of r] show ?thesis by auto
qed

text \<open>A settling promise leaves every key alone that does not hold its pending entry.\<close>

lemma settle_cache_other:
  assumes "cache_inv s" and "nzbdavStreamCache s k \<noteq> Some (Pending p)"
  shows "nzbdavStreamCache (settle p r s) k = nzbdavStreamCache s k"
proof (cases "builds s p")
  case None
  then show ?thesis by (simp add: settle_idle)
next
  case (Some key)
  have "nzbdavStreamCache s key = Some (Pending p)"
    by (rule cache_invD1[OF assms(1) Some])
  then have "k \<noteq> key" using assms(2) by auto
  with settle_cache[OF Some, of r] show ?thesis by auto
qed

lemma step_clock_mono: "clock s \<le> clock (step e s)"
  by (cases e) (simp_all add: request_clock settle_clock)

lemma run_clock_mono: "clock s \<le> clock (run es s)"
proof (induction es arbitrary: s)
  case Nil
  show ?case by simp
next
  case (Cons e es)
  have "clock s \<le> clock (step e s)" by (rule step_clock_mono)
  also have "\<dots> \<le> clock (run es (step e s))" by (rule Cons.IH)
  finally show ?case by simp
qed

lemma step_pending:
  assumes "cache_inv s" and "nzbdavStreamCache s k = Some (Pending p)" and "\<not> settles p e"
  shows "nzbdavStreamCache (step e s) k = Some (Pending p)"
proof (cases e)
  case (Request k')
  have c: "cleanupNzbdavCache (clock s) (nzbdavStreamCache s) k = Some (Pending p)"
    using assms(2) by (simp add: cleanup_pending)
  show ?thesis
  proof (cases "k' = k")
    case True
    then show ?thesis using Request c by (simp add: request_cache_hit)
  next
    case False
    then show ?thesis using Request c by (simp add: request_cache_other)
  qed
next
  case (Settle q r)
  then have "q \<noteq> p" using assms(3) by auto
  then have "nzbdavStreamCache s k \<noteq> Some (Pending q)" using assms(2) by simp
  then show ?thesis using Settle assms(1,2) by (simp add: settle_cache_other)
next
  case (Tick d)
  then show ?thesis using assms(2) by simp
qed

lemma step_calls_pending:
  assumes "nzbdavStreamCache s k = Some (Pending p)"
  shows "count_list (builder_calls (step e s)) k = count_list (builder_calls s) k"
proof (cases e)
  case (Request k')
  have c: "cleanupNzbdavCache (clock s) (nzbdavStreamCache s) k = Some (Pending p)"
    using assms by (simp add: cleanup_pending)
  show ?thesis
  proof (cases "k' = k")
    case True
    then show ?thesis using Request c by (simp add: request_calls_hit)
  next
    case False
    then show ?thesis using Request by (simp add: request_calls_other)
  qed
next
  case (Settle q r)
  then show ?thesis by (simp add: settle_calls)
next
  case (Tick d)
  then show ?thesis by simp
qed

lemma request_outcome_pending:
  "cleanupNzbdavCache (clock s) (nzbdavStreamCache s) k = Some (Pending p) \<Longrightarrow>
   fst (getOrCreateNzbdavStream k s) = Awaits p"
  by (simp add: getOrCreateNzbdavStream_def Let_def)

lemma request_outcome_ready:
  "cleanupNzbdavCache (clock s) (nzbdavStreamCache s) k = Some (Ready d t) \<Longrightarrow>
   fst (getOrCreateNzbdavStream k s) = Returned d"
  by (simp add: getOrCreateNzbdavStream_def Let_def)

lemma request_outcome_failed:
  "cleanupNzbdavCache (clock s) (nzbdavStreamCache s) k = Some (Failed e t) \<Longrightarrow>
   fst (getOrCreateNzbdavStream k s) = Thrown e"
  by (simp add: getOrCreateNzbdavStream_def Let_def)

lemma pending_persists:
  assumes "cache_inv s" and "nzbdavStreamCache s k = Some (Pending p)"
    and "\<forall>e\<in>set es. \<not> settles p e"
  shows "nzbdavStreamCache (run es s) k = Some (Pending p) \<and>
         count_list (builder_calls (run es s)) k = count_list (builder_calls s) k \<and>
         (\<forall>r. (k, r) \<in> set (observations es s) \<longrightarrow> r = Awaits p)"
  using assms
proof (induction es arbitrary: s)
  case Nil
  then show ?case by simp
next
  case (Cons e es)
  have inv': "cache_inv (step e s)" by (rule cache_inv_step[OF Cons.prems(1)])
  have ns: "\<not> settles p e" and rest: "\<forall>e\<in>set es. \<not> settles p e"
    using Cons.prems(3) by simp_all
  have pend': "nzbdavStreamCache (step e s) k = Some (Pending p)"
    by (rule step_pending[OF Cons.prems(1,2) ns])
  have calls': "count_list (builder_calls (step e s)) k = count_list (builder_calls s) k"
    by (rule step_calls_pending[OF Cons.prems(2)])
  note IH = Cons.IH[OF inv' pend' rest]
  have obs: "\<forall>r. (k, r) \<in> set (observations (e # es) s) \<longrightarrow> r = Awaits p"
  proof (cases e)
    case (Request k')
    have "k' = k \<Longrightarrow> fst (getOrCreateNzbdavStream k' s) = Awaits p"
      using Cons.prems(2) by (simp add: request_outcome_pending cleanup_pending)
    then show ?thesis using IH Request by auto
  next
    case (Settle q r)
    then show ?thesis using IH by simp
  next
    case (Tick d)
    then show ?thesis using IH by simp
  qed
  show ?case using IH calls' obs by simp
qed


text \<open>
  C1 (single flight). A request that misses starts the one build of its key; while that
  build is in flight, whatever else happens, every request on the key is handed the
  same promise and the builder is not invoked again for the key, so all callers see the
  one outcome of that promise; and no key ever has two builds in flight.
\<close>

theorem single_flight:
  assumes "cache_inv s"
    and "cleanupNzbdavCache (clock s) (nzbdavStreamCache s) key = None"
    and "\<forall>e\<in>set es. \<not> settles (next_promise s) e"
  shows "(\<forall>r. (key, r) \<in> set (observations (Request key # es) s) \<longrightarrow>
            r = Awaits (next_promise s) \<and> (\<forall>\<sigma>. observe \<sigma> r = \<sigma> (next_promise s))) \<and>
         count_list (builder_calls (run (Request key # es) s)) key =
           Suc (count_list (builder_calls s) key) \<and>
         nzbdavStreamCache (run (Request key # es) s) key = Some (Pending (next_promise s)) \<and>
         (\<forall>p q. builds (run (Request key # es) s) p = Some key \<and>
                builds (run (Request key # es) s) q = Some key \<longrightarrow> p = q)"
proof -
  let ?p = "next_promise s"
  let ?s1 = "step (Request key) s"
  have inv1: "cache_inv ?s1" by (rule cache_inv_step[OF assms(1)])
  have pend1: "nzbdavStreamCache ?s1 key = Some (Pending ?p)"
    by (simp add: request_miss[OF assms(2)])
  have calls1: "builder_calls ?s1 = builder_calls s @ [key]"
    by (simp add: request_miss[OF assms(2)])
  have first: "fst (getOrCreateNzbdavStream key s) = Awaits ?p"
    by (simp add: request_miss[OF assms(2)])
  note P = pending_persists[OF inv1 pend1 assms(3)]
  have obs: "\<forall>r. (key, r) \<in> set (observations (Request key # es) s) \<longrightarrow>
            r = Awaits ?p \<and> (\<forall>\<sigma>. observe \<sigma> r = \<sigma> ?p)"
    using P first by auto
  have cnt: "count_list (builder_calls (run (Request key # es) s)) key =
           Suc (count_list (builder_calls s) key)"
    using P calls1 by simp
  have pend: "nzbdavStreamCache (run (Request key # es) s) key = Some (Pending ?p)"
    using P by simp
  have invn: "cache_inv (run (Request key # es) s)" by (rule cache_inv_run[OF assms(1)])
  have uniq: "\<forall>p q. builds (run (Request key # es) s) p = Some key \<and>
                builds (run (Request key # es) s) q = Some key \<longrightarrow> p = q"
  proof (intro allI impI)
    fix p q
    assume h: "builds (run (Request key # es) s) p = Some key \<and>
                builds (run (Request key # es) s) q = Some key"
    have "nzbdavStreamCache (run (Request key # es) s) key = Some (Pending p)"
      using cache_invD1[OF invn] h by blast
    moreover have "nzbdavStreamCache (run (Request key # es) s) key = Some (Pending q)"
      using cache_invD1[OF invn] h by blast
    ultimately show "p = q" by simp
  qed
  show ?thesis using obs cnt pend uniq by blast
qed

theorem single_flight_witness:
  "cache_inv (init_state 1000) \<and>
   observations [Request ''u|Movies'', Request ''v|Tv'', Tick 5, Request ''u|Movies'',
                 Settle 1 (Inl (Error ''boom'')), Request ''u|Movies''] (init_state 1000) =
     [(''u|Movies'', Awaits 0), (''v|Tv'', Awaits 1), (''u|Movies'', Awaits 0), (''u|Movies'', Awaits 0)] \<and>
   count_list (builder_calls (run [Request ''u|Movies'', Request ''v|Tv'', Tick 5, Request ''u|Movies'',
                 Settle 1 (Inl (Error ''boom'')), Request ''u|Movies''] (init_state 1000))) ''u|Movies'' = 1"
proof -
  have inv: "cache_inv (init_state 1000)" by (rule cache_inv_init)
  have miss: "cleanupNzbdavCache (clock (init_state 1000)) (nzbdavStreamCache (init_state 1000)) ''u|Movies'' = None"
    by (simp add: init_state_def cleanupNzbdavCache_def)
  have ns: "\<forall>e\<in>set [Request ''v|Tv'', Tick 5, Request ''u|Movies'',
                 Settle 1 (Inl (Error ''boom'')), Request ''u|Movies'']. \<not> settles (next_promise (init_state 1000)) e"
    by (simp add: init_state_def)
  have cnt: "count_list (builder_calls (run [Request ''u|Movies'', Request ''v|Tv'', Tick 5, Request ''u|Movies'',
                 Settle 1 (Inl (Error ''boom'')), Request ''u|Movies''] (init_state 1000))) ''u|Movies'' = 1"
    using single_flight[OF inv miss ns] by (simp add: init_state_def)
  have obs: "observations [Request ''u|Movies'', Request ''v|Tv'', Tick 5, Request ''u|Movies'',
                 Settle 1 (Inl (Error ''boom'')), Request ''u|Movies''] (init_state 1000) =
     [(''u|Movies'', Awaits 0), (''v|Tv'', Awaits 1), (''u|Movies'', Awaits 0), (''u|Movies'', Awaits 0)]"
    by (simp add: init_state_def getOrCreateNzbdavStream_def cleanupNzbdavCache_def
        NZBDAV_CACHE_TTL_MS_def Let_def settle_def Error_def expired_def)
  show ?thesis using inv cnt obs by blast
qed

lemma commit_expiry_eq: "commit_expiry now = Some (now + NZBDAV_CACHE_TTL_MS)"
  by (simp add: commit_expiry_def NZBDAV_CACHE_TTL_MS_def)

text \<open>
  C10 (in-flight builds are never evicted). A pending entry has no \<^verbatim>\<open>expiresAt\<close>, so
  the cleanup keeps it at every time, and whatever it deletes is a ready or failed entry.
  Any step other than the settling of its own promise (a request on any key, the
  settling of another build, the passing of time) leaves the pending entry in place.
  Its own promise replaces it by the ready entry on success, by the failed entry on a
  marked job failure, and deletes it on any other error.
\<close>

theorem pending_entry_lifecycle:
  assumes "cache_inv s" and "nzbdavStreamCache s k = Some (Pending p)"
  shows "expiresAt (Pending p) = None \<and>
         (\<forall>now. cleanupNzbdavCache now (nzbdavStreamCache s) k = Some (Pending p)) \<and>
         (\<forall>now k' e. nzbdavStreamCache s k' = Some e \<and>
              cleanupNzbdavCache now (nzbdavStreamCache s) k' = None \<longrightarrow>
              ((\<exists>x t. e = Ready x (Some t) \<and> t \<le> now) \<or> (\<exists>x t. e = Failed x (Some t) \<and> t \<le> now))) \<and>
         (\<forall>e. \<not> settles p e \<longrightarrow> nzbdavStreamCache (step e s) k = Some (Pending p)) \<and>
         (\<forall>d. nzbdavStreamCache (step (Settle p (Inr d)) s) k =
              Some (Ready d (Some (clock s + NZBDAV_CACHE_TTL_MS)))) \<and>
         (\<forall>err. isNzbdavFailure err \<longrightarrow>
              nzbdavStreamCache (step (Settle p (Inl err)) s) k =
                Some (Failed err (Some (clock s + NZBDAV_CACHE_TTL_MS)))) \<and>
         (\<forall>err. \<not> isNzbdavFailure err \<longrightarrow>
              nzbdavStreamCache (step (Settle p (Inl err)) s) k = None)"
proof -
  have b: "builds s p = Some k" by (rule cache_invD2[OF assms])
  have 1: "\<forall>now. cleanupNzbdavCache now (nzbdavStreamCache s) k = Some (Pending p)"
    using assms(2) by (simp add: cleanup_pending)
  have 2: "\<forall>now k' e. nzbdavStreamCache s k' = Some e \<and>
              cleanupNzbdavCache now (nzbdavStreamCache s) k' = None \<longrightarrow>
              ((\<exists>x t. e = Ready x (Some t) \<and> t \<le> now) \<or> (\<exists>x t. e = Failed x (Some t) \<and> t \<le> now))"
  proof (intro allI impI)
    fix now k' e
    assume h: "nzbdavStreamCache s k' = Some e \<and>
              cleanupNzbdavCache now (nzbdavStreamCache s) k' = None"
    then have "expired now e"
      by (auto simp: cleanupNzbdavCache_def split: if_splits)
    then show "(\<exists>x t. e = Ready x (Some t) \<and> t \<le> now) \<or> (\<exists>x t. e = Failed x (Some t) \<and> t \<le> now)"
      by (cases e) (auto simp: expired_def split: option.splits)
  qed
  have 3: "\<forall>e. \<not> settles p e \<longrightarrow> nzbdavStreamCache (step e s) k = Some (Pending p)"
    using step_pending[OF assms] by blast
  have 4: "\<forall>d. nzbdavStreamCache (step (Settle p (Inr d)) s) k =
              Some (Ready d (Some (clock s + NZBDAV_CACHE_TTL_MS)))"
    by (simp add: settle_ready[OF b] commit_expiry_eq)
  have 5: "\<forall>err. isNzbdavFailure err \<longrightarrow>
              nzbdavStreamCache (step (Settle p (Inl err)) s) k =
                Some (Failed err (Some (clock s + NZBDAV_CACHE_TTL_MS)))"
    by (simp add: settle_failed[OF b] commit_expiry_eq)
  have 6: "\<forall>err. \<not> isNzbdavFailure err \<longrightarrow>
              nzbdavStreamCache (step (Settle p (Inl err)) s) k = None"
    by (simp add: settle_evict[OF b])
  show ?thesis using 1 2 3 4 5 6 by simp
qed

lemma demo_pending_inv: "cache_inv demo_pending"
  unfolding demo_pending_def by (rule cache_inv_run[OF cache_inv_init])

lemma demo_pending_entry: "nzbdavStreamCache demo_pending ''u|Movies'' = Some (Pending 0)"
  by (simp add: demo_pending_def init_state_def getOrCreateNzbdavStream_def cleanupNzbdavCache_def Let_def)

lemma demo_pending_clock: "clock demo_pending = 1000"
  by (simp add: demo_pending_def init_state_def request_clock)

theorem pending_entry_lifecycle_witness:
  "cache_inv demo_pending \<and> nzbdavStreamCache demo_pending ''u|Movies'' = Some (Pending 0) \<and>
   cleanupNzbdavCache 99999999999 (nzbdavStreamCache demo_pending) ''u|Movies'' = Some (Pending 0) \<and>
   nzbdavStreamCache (step (Request ''v|Tv'') demo_pending) ''u|Movies'' = Some (Pending 0) \<and>
   nzbdavStreamCache (step (Settle 0 (Inr demo_data)) demo_pending) ''u|Movies'' =
     Some (Ready demo_data (Some 3601000)) \<and>
   nzbdavStreamCache (step (Settle 0 (Inl (Error ''[NZBDAV] Timeout while waiting for NZB to become streamable''))) demo_pending) ''u|Movies'' = None"
proof -
  note T = pending_entry_lifecycle[OF demo_pending_inv demo_pending_entry]
  have a: "cleanupNzbdavCache 99999999999 (nzbdavStreamCache demo_pending) ''u|Movies'' = Some (Pending 0)"
    using T by blast
  have b: "nzbdavStreamCache (step (Request ''v|Tv'') demo_pending) ''u|Movies'' = Some (Pending 0)"
  proof -
    have "\<not> settles 0 (Request ''v|Tv'')" by simp
    then show ?thesis using T by blast
  qed
  have c: "nzbdavStreamCache (step (Settle 0 (Inr demo_data)) demo_pending) ''u|Movies'' =
     Some (Ready demo_data (Some 3601000))"
  proof -
    have "nzbdavStreamCache (step (Settle 0 (Inr demo_data)) demo_pending) ''u|Movies'' =
        Some (Ready demo_data (Some (clock demo_pending + NZBDAV_CACHE_TTL_MS)))"
      using T by blast
    then show ?thesis by (simp add: demo_pending_clock NZBDAV_CACHE_TTL_MS_def)
  qed
  have d: "nzbdavStreamCache (step (Settle 0 (Inl (Error ''[NZBDAV] Timeout while waiting for NZB to become streamable''))) demo_pending) ''u|Movies'' = None"
  proof -
    have "\<not> isNzbdavFailure (Error ''[NZBDAV] Timeout while waiting for NZB to become streamable'')"
      by (simp add: Error_def)
    then show ?thesis using T by blast
  qed
  show ?thesis using demo_pending_inv demo_pending_entry a b c d by blast
qed

lemma request_outcome_hit:
  "cleanupNzbdavCache (clock s) (nzbdavStreamCache s) k = Some e \<Longrightarrow>
   fst (getOrCreateNzbdavStream k s) = hit_outcome e"
  by (cases e) (simp_all add: getOrCreateNzbdavStream_def Let_def)

lemma request_builds_hit:
  "cleanupNzbdavCache (clock s) (nzbdavStreamCache s) k = Some e \<Longrightarrow>
   builds (snd (getOrCreateNzbdavStream k s)) = builds s"
  by (simp add: request_hit)

text \<open>A ready or failed entry changes in one way only: a request's cleanup deletes it once expired.\<close>

lemma step_terminal:
  assumes "cache_inv s" and "nzbdavStreamCache s k = Some ent" and "\<forall>q. ent \<noteq> Pending q"
  shows "nzbdavStreamCache (step e s) k = Some ent \<or> (expired (clock s) ent \<and> (\<exists>k'. e = Request k'))"
proof (cases e)
  case (Request k')
  show ?thesis
  proof (cases "expired (clock s) ent")
    case True
    then show ?thesis using Request by simp
  next
    case False
    have c: "cleanupNzbdavCache (clock s) (nzbdavStreamCache s) k = Some ent"
      using False assms(2) by (simp add: cleanup_not_expired)
    show ?thesis
    proof (cases "k' = k")
      case True
      then show ?thesis using Request c by (simp add: request_cache_hit)
    next
      case False
      then show ?thesis using Request c by (simp add: request_cache_other)
    qed
  qed
next
  case (Settle q r)
  have "nzbdavStreamCache s k \<noteq> Some (Pending q)" using assms(2,3) by simp
  then show ?thesis using Settle assms(1,2) by (simp add: settle_cache_other)
next
  case (Tick d)
  then show ?thesis using assms(2) by simp
qed

lemma step_calls_terminal:
  assumes "nzbdavStreamCache s k = Some ent" and "\<not> expired (clock s) ent"
  shows "count_list (builder_calls (step e s)) k = count_list (builder_calls s) k"
proof (cases e)
  case (Request k')
  have c: "cleanupNzbdavCache (clock s) (nzbdavStreamCache s) k = Some ent"
    using assms by (simp add: cleanup_not_expired)
  show ?thesis
  proof (cases "k' = k")
    case True
    then show ?thesis using Request c by (simp add: request_calls_hit)
  next
    case False
    then show ?thesis using Request by (simp add: request_calls_other)
  qed
next
  case (Settle q r)
  then show ?thesis by (simp add: settle_calls)
next
  case (Tick d)
  then show ?thesis by simp
qed

lemma not_expired_before: "expiresAt ent = Some t \<Longrightarrow> now < t \<Longrightarrow> \<not> expired now ent"
  by (simp add: expired_def)

lemma terminal_persists:
  assumes "cache_inv s" and "nzbdavStreamCache s k = Some ent" and "\<forall>q. ent \<noteq> Pending q"
    and "expiresAt ent = Some t" and "clock (run es s) < t"
  shows "nzbdavStreamCache (run es s) k = Some ent \<and>
         count_list (builder_calls (run es s)) k = count_list (builder_calls s) k \<and>
         (\<forall>r. (k, r) \<in> set (observations es s) \<longrightarrow> r = hit_outcome ent)"
  using assms(1,2,5)
proof (induction es arbitrary: s)
  case Nil
  then show ?case by simp
next
  case (Cons e es)
  have inv': "cache_inv (step e s)" by (rule cache_inv_step[OF Cons.prems(1)])
  have later: "clock (run es (step e s)) < t" using Cons.prems(3) by simp
  have "clock (step e s) \<le> clock (run es (step e s))" by (rule run_clock_mono)
  moreover have "clock s \<le> clock (step e s)" by (rule step_clock_mono)
  ultimately have now: "clock s < t" using later by simp
  have fresh: "\<not> expired (clock s) ent" by (rule not_expired_before[OF assms(4) now])
  have ent': "nzbdavStreamCache (step e s) k = Some ent"
    using step_terminal[OF Cons.prems(1,2) assms(3), of e] fresh by blast
  have calls': "count_list (builder_calls (step e s)) k = count_list (builder_calls s) k"
    by (rule step_calls_terminal[OF Cons.prems(2) fresh])
  note IH = Cons.IH[OF inv' ent' later]
  have obs: "\<forall>r. (k, r) \<in> set (observations (e # es) s) \<longrightarrow> r = hit_outcome ent"
  proof (cases e)
    case (Request k')
    have "cleanupNzbdavCache (clock s) (nzbdavStreamCache s) k = Some ent"
      using fresh Cons.prems(2) by (simp add: cleanup_not_expired)
    then have "k' = k \<Longrightarrow> fst (getOrCreateNzbdavStream k' s) = hit_outcome ent"
      by (simp add: request_outcome_hit)
    then show ?thesis using IH Request by auto
  next
    case (Settle q r)
    then show ?thesis using IH by simp
  next
    case (Tick d)
    then show ?thesis using IH by simp
  qed
  show ?case using IH calls' obs by simp
qed

text \<open>A key without an entry stays without one until it is requested.\<close>

lemma step_absent:
  assumes "cache_inv s" and "nzbdavStreamCache s k = None" and "e \<noteq> Request k"
  shows "nzbdavStreamCache (step e s) k = None"
proof (cases e)
  case (Request k')
  then have "k' \<noteq> k" using assms(3) by simp
  then show ?thesis using Request assms(2) by (simp add: request_cache_other cleanup_absent)
next
  case (Settle q r)
  have "nzbdavStreamCache s k \<noteq> Some (Pending q)" using assms(2) by simp
  then show ?thesis using Settle assms(1,2) by (simp add: settle_cache_other)
next
  case (Tick d)
  then show ?thesis using assms(2) by simp
qed

lemma absent_persists:
  assumes "cache_inv s" and "nzbdavStreamCache s k = None" and "\<forall>e\<in>set es. e \<noteq> Request k"
  shows "nzbdavStreamCache (run es s) k = None"
  using assms
proof (induction es arbitrary: s)
  case Nil
  then show ?case by simp
next
  case (Cons e es)
  have "cache_inv (step e s)" by (rule cache_inv_step[OF Cons.prems(1)])
  moreover have "nzbdavStreamCache (step e s) k = None"
    using step_absent[OF Cons.prems(1,2)] Cons.prems(3) by simp
  ultimately show ?case using Cons.IH Cons.prems(3) by simp
qed

lemma run_append: "run (es @ es') s = run es' (run es s)"
  by (induction es arbitrary: s) simp_all


text \<open>
  C7 (lazy TTL eviction). After any access no expired entry is left in the map, and the
  passing of time alone changes nothing in it (there is no timer). A ready and a failed
  entry are committed with the same \<^verbatim>\<open>expiresAt\<close>, the commit time plus the TTL. A ready
  entry accessed at or after its \<^verbatim>\<open>expiresAt\<close> starts a fresh build; accessed before,
  also after any other activity in between, the request returns the memoized data and
  neither invokes the builder nor creates a promise. A ready or failed entry is never
  changed by any step: it stays as committed or is deleted by a request's cleanup once
  expired.
\<close>

theorem lazy_ttl_eviction:
  assumes "cache_inv s"
  shows "(\<forall>k k' e. nzbdavStreamCache (snd (getOrCreateNzbdavStream k s)) k' = Some e \<longrightarrow>
            \<not> expired (clock s) e) \<and>
         (\<forall>d. nzbdavStreamCache (step (Tick d) s) = nzbdavStreamCache s) \<and>
         (\<forall>p k d err. builds s p = Some k \<and> isNzbdavFailure err \<longrightarrow>
            nzbdavStreamCache (settle p (Inr d) s) k = Some (Ready d (Some (clock s + NZBDAV_CACHE_TTL_MS))) \<and>
            nzbdavStreamCache (settle p (Inl err) s) k = Some (Failed err (Some (clock s + NZBDAV_CACHE_TTL_MS)))) \<and>
         (\<forall>k d t. nzbdavStreamCache s k = Some (Ready d (Some t)) \<and> 0 < t \<and> t \<le> clock s \<longrightarrow>
            fst (getOrCreateNzbdavStream k s) = Awaits (next_promise s) \<and>
            builder_calls (snd (getOrCreateNzbdavStream k s)) = builder_calls s @ [k]) \<and>
         (\<forall>k d t es. nzbdavStreamCache s k = Some (Ready d (Some t)) \<and> clock (run es s) < t \<longrightarrow>
            fst (getOrCreateNzbdavStream k (run es s)) = Returned d \<and>
            builder_calls (snd (getOrCreateNzbdavStream k (run es s))) = builder_calls (run es s) \<and>
            builds (snd (getOrCreateNzbdavStream k (run es s))) = builds (run es s) \<and>
            count_list (builder_calls (run es s)) k = count_list (builder_calls s) k) \<and>
         (\<forall>k ent e. nzbdavStreamCache s k = Some ent \<and> (\<forall>q. ent \<noteq> Pending q) \<longrightarrow>
            nzbdavStreamCache (step e s) k = Some ent \<or>
            (expired (clock s) ent \<and> (\<exists>k'. e = Request k') ))"
proof -
  have 1: "\<forall>k k' e. nzbdavStreamCache (snd (getOrCreateNzbdavStream k s)) k' = Some e \<longrightarrow>
            \<not> expired (clock s) e"
  proof (intro allI impI)
    fix k k' e
    assume h: "nzbdavStreamCache (snd (getOrCreateNzbdavStream k s)) k' = Some e"
    show "\<not> expired (clock s) e"
    proof (cases "k' = k")
      case False
      then have "cleanupNzbdavCache (clock s) (nzbdavStreamCache s) k' = Some e"
        using h by (simp add: request_cache_other)
      then show ?thesis by (rule cleanup_result_fresh)
    next
      case True
      show ?thesis
      proof (cases "cleanupNzbdavCache (clock s) (nzbdavStreamCache s) k")
        case None
        then have "e = Pending (next_promise s)" using h True by (simp add: request_miss)
        then show ?thesis by (simp add: expired_def)
      next
        case (Some e')
        then have "e' = e" using h True by (simp add: request_cache_hit)
        then show ?thesis using Some cleanup_result_fresh by blast
      qed
    qed
  qed
  have 2: "\<forall>d. nzbdavStreamCache (step (Tick d) s) = nzbdavStreamCache s" by simp
  have 3: "\<forall>p k d err. builds s p = Some k \<and> isNzbdavFailure err \<longrightarrow>
            nzbdavStreamCache (settle p (Inr d) s) k = Some (Ready d (Some (clock s + NZBDAV_CACHE_TTL_MS))) \<and>
            nzbdavStreamCache (settle p (Inl err) s) k = Some (Failed err (Some (clock s + NZBDAV_CACHE_TTL_MS)))"
    by (simp add: settle_ready settle_failed commit_expiry_eq)
  have 4: "\<forall>k d t. nzbdavStreamCache s k = Some (Ready d (Some t)) \<and> 0 < t \<and> t \<le> clock s \<longrightarrow>
            fst (getOrCreateNzbdavStream k s) = Awaits (next_promise s) \<and>
            builder_calls (snd (getOrCreateNzbdavStream k s)) = builder_calls s @ [k]"
  proof (intro allI impI)
    fix k d t
    assume h: "nzbdavStreamCache s k = Some (Ready d (Some t)) \<and> 0 < t \<and> t \<le> clock s"
    then have "expired (clock s) (Ready d (Some t))" by (simp add: expired_def)
    then have "cleanupNzbdavCache (clock s) (nzbdavStreamCache s) k = None"
      using h by (simp add: cleanup_expired)
    then show "fst (getOrCreateNzbdavStream k s) = Awaits (next_promise s) \<and>
            builder_calls (snd (getOrCreateNzbdavStream k s)) = builder_calls s @ [k]"
      by (simp add: request_miss)
  qed
  have 5: "\<forall>k d t es. nzbdavStreamCache s k = Some (Ready d (Some t)) \<and> clock (run es s) < t \<longrightarrow>
            fst (getOrCreateNzbdavStream k (run es s)) = Returned d \<and>
            builder_calls (snd (getOrCreateNzbdavStream k (run es s))) = builder_calls (run es s) \<and>
            builds (snd (getOrCreateNzbdavStream k (run es s))) = builds (run es s) \<and>
            count_list (builder_calls (run es s)) k = count_list (builder_calls s) k"
  proof (intro allI impI)
    fix k d t es
    assume h: "nzbdavStreamCache s k = Some (Ready d (Some t)) \<and> clock (run es s) < t"
    have P: "nzbdavStreamCache (run es s) k = Some (Ready d (Some t)) \<and>
         count_list (builder_calls (run es s)) k = count_list (builder_calls s) k"
      using terminal_persists[OF assms, of k "Ready d (Some t)" t es] h by simp
    have "\<not> expired (clock (run es s)) (Ready d (Some t))"
      using h by (simp add: expired_def)
    then have c: "cleanupNzbdavCache (clock (run es s)) (nzbdavStreamCache (run es s)) k = Some (Ready d (Some t))"
      using P by (simp add: cleanup_not_expired)
    show "fst (getOrCreateNzbdavStream k (run es s)) = Returned d \<and>
            builder_calls (snd (getOrCreateNzbdavStream k (run es s))) = builder_calls (run es s) \<and>
            builds (snd (getOrCreateNzbdavStream k (run es s))) = builds (run es s) \<and>
            count_list (builder_calls (run es s)) k = count_list (builder_calls s) k"
      using P request_outcome_hit[OF c] request_calls_hit[OF c] request_builds_hit[OF c] by simp
  qed
  have 6: "\<forall>k ent e. nzbdavStreamCache s k = Some ent \<and> (\<forall>q. ent \<noteq> Pending q) \<longrightarrow>
            nzbdavStreamCache (step e s) k = Some ent \<or>
            (expired (clock s) ent \<and> (\<exists>k'. e = Request k'))"
    using step_terminal[OF assms] by blast
  show ?thesis using 1 2 3 4 5 6 by blast
qed

lemma demo_ready_inv: "cache_inv demo_ready"
  unfolding demo_ready_def by (rule cache_inv_run[OF cache_inv_init])

lemma demo_ready_eq:
  "demo_ready = \<lparr>nzbdavStreamCache = [''u|Movies'' \<mapsto> Ready demo_data (Some 3605000)], clock = 5000,
      builds = Map.empty, next_promise = 1, builder_calls = [''u|Movies'']\<rparr>"
  by (simp add: demo_ready_def init_state_def getOrCreateNzbdavStream_def cleanupNzbdavCache_def
      Let_def settle_def commit_expiry_def NZBDAV_CACHE_TTL_MS_def fun_eq_iff)


theorem lazy_ttl_eviction_witness:
  "cache_inv demo_ready \<and>
   nzbdavStreamCache demo_ready ''u|Movies'' = Some (Ready demo_data (Some 3605000)) \<and>
   fst (getOrCreateNzbdavStream ''u|Movies'' (run [Tick 3599999] demo_ready)) = Returned demo_data \<and>
   builder_calls (snd (getOrCreateNzbdavStream ''u|Movies'' (run [Tick 3599999] demo_ready))) = [''u|Movies''] \<and>
   fst (getOrCreateNzbdavStream ''u|Movies'' (run [Tick 3600000] demo_ready)) = Awaits 1 \<and>
   builder_calls (snd (getOrCreateNzbdavStream ''u|Movies'' (run [Tick 3600000] demo_ready))) =
     [''u|Movies'', ''u|Movies'']"
proof -
  have e: "nzbdavStreamCache demo_ready ''u|Movies'' = Some (Ready demo_data (Some 3605000))"
    by (simp add: demo_ready_eq)
  have before: "clock (run [Tick 3599999] demo_ready) < 3605000"
    by (simp add: demo_ready_eq)
  have a: "fst (getOrCreateNzbdavStream ''u|Movies'' (run [Tick 3599999] demo_ready)) = Returned demo_data \<and>
      builder_calls (snd (getOrCreateNzbdavStream ''u|Movies'' (run [Tick 3599999] demo_ready))) =
        builder_calls (run [Tick 3599999] demo_ready)"
    using lazy_ttl_eviction[OF demo_ready_inv] e before by blast
  have inv2: "cache_inv (run [Tick 3600000] demo_ready)"
    by (rule cache_inv_run[OF demo_ready_inv])
  have e2: "nzbdavStreamCache (run [Tick 3600000] demo_ready) ''u|Movies'' =
      Some (Ready demo_data (Some 3605000)) \<and> (0::nat) < 3605000 \<and>
      3605000 \<le> clock (run [Tick 3600000] demo_ready)"
    by (simp add: demo_ready_eq)
  have b: "fst (getOrCreateNzbdavStream ''u|Movies'' (run [Tick 3600000] demo_ready)) =
        Awaits (next_promise (run [Tick 3600000] demo_ready)) \<and>
      builder_calls (snd (getOrCreateNzbdavStream ''u|Movies'' (run [Tick 3600000] demo_ready))) =
        builder_calls (run [Tick 3600000] demo_ready) @ [''u|Movies'']"
    using lazy_ttl_eviction[OF inv2] e2 by blast
  show ?thesis
    using demo_ready_inv e a b by (simp add: demo_ready_eq)
qed

text \<open>How the cache ends a build that throws, and what later requests on the key get.\<close>

lemma settled_error:
  assumes "cache_inv s" and "builds s p = Some k"
  shows "(isNzbdavFailure err \<longrightarrow>
            nzbdavStreamCache (step (Settle p (Inl err)) s) k =
              Some (Failed err (Some (clock s + NZBDAV_CACHE_TTL_MS))) \<and>
            (\<forall>es. clock (run es (step (Settle p (Inl err)) s)) < clock s + NZBDAV_CACHE_TTL_MS \<longrightarrow>
               (\<forall>r. (k, r) \<in> set (observations (es @ [Request k]) (step (Settle p (Inl err)) s)) \<longrightarrow>
                     r = Thrown err) \<and>
               count_list (builder_calls (run (es @ [Request k]) (step (Settle p (Inl err)) s))) k =
                 count_list (builder_calls s) k)) \<and>
         (\<not> isNzbdavFailure err \<longrightarrow>
            nzbdavStreamCache (step (Settle p (Inl err)) s) k = None \<and>
            (\<forall>es. (\<forall>e\<in>set es. e \<noteq> Request k) \<longrightarrow>
               fst (getOrCreateNzbdavStream k (run es (step (Settle p (Inl err)) s))) =
                 Awaits (next_promise (run es (step (Settle p (Inl err)) s))) \<and>
               builder_calls (snd (getOrCreateNzbdavStream k (run es (step (Settle p (Inl err)) s)))) =
                 builder_calls (run es (step (Settle p (Inl err)) s)) @ [k]))"
proof (intro conjI impI)
  let ?s' = "step (Settle p (Inl err)) s"
  let ?t = "clock s + NZBDAV_CACHE_TTL_MS"
  have inv': "cache_inv ?s'" by (rule cache_inv_step[OF assms(1)])
  {
    assume f: "isNzbdavFailure err"
    show ent: "nzbdavStreamCache ?s' k = Some (Failed err (Some ?t))"
      by (simp add: settle_failed[OF assms(2) f] commit_expiry_eq)
    have calls0: "builder_calls ?s' = builder_calls s" by (simp add: settle_calls)
    show "\<forall>es. clock (run es ?s') < ?t \<longrightarrow>
               (\<forall>r. (k, r) \<in> set (observations (es @ [Request k]) ?s') \<longrightarrow> r = Thrown err) \<and>
               count_list (builder_calls (run (es @ [Request k]) ?s')) k =
                 count_list (builder_calls s) k"
    proof (intro allI impI)
      fix es
      assume "clock (run es ?s') < ?t"
      then have "clock (run (es @ [Request k]) ?s') < ?t"
        by (simp add: run_append request_clock)
      from terminal_persists[OF inv' ent _ _ this]
      show "(\<forall>r. (k, r) \<in> set (observations (es @ [Request k]) ?s') \<longrightarrow> r = Thrown err) \<and>
               count_list (builder_calls (run (es @ [Request k]) ?s')) k =
                 count_list (builder_calls s) k"
        using calls0 by simp
    qed
  }
  {
    assume nf: "\<not> isNzbdavFailure err"
    show gone: "nzbdavStreamCache ?s' k = None"
      by (simp add: settle_evict[OF assms(2) nf])
    show "\<forall>es. (\<forall>e\<in>set es. e \<noteq> Request k) \<longrightarrow>
               fst (getOrCreateNzbdavStream k (run es ?s')) = Awaits (next_promise (run es ?s')) \<and>
               builder_calls (snd (getOrCreateNzbdavStream k (run es ?s'))) =
                 builder_calls (run es ?s') @ [k]"
    proof (intro allI impI)
      fix es
      assume "\<forall>e\<in>set es. e \<noteq> Request k"
      then have "nzbdavStreamCache (run es ?s') k = None"
        by (rule absent_persists[OF inv' gone])
      then have "cleanupNzbdavCache (clock (run es ?s')) (nzbdavStreamCache (run es ?s')) k = None"
        by (rule cleanup_absent)
      then show "fst (getOrCreateNzbdavStream k (run es ?s')) = Awaits (next_promise (run es ?s')) \<and>
               builder_calls (snd (getOrCreateNzbdavStream k (run es ?s'))) =
                 builder_calls (run es ?s') @ [k]"
        by (simp add: request_miss)
    qed
  }
qed


lemma demo_pending_eq:
  "demo_pending = \<lparr>nzbdavStreamCache = [''u|Movies'' \<mapsto> Pending 0], clock = 1000,
      builds = [0 \<mapsto> ''u|Movies''], next_promise = 1, builder_calls = [''u|Movies'']\<rparr>"
  by (simp add: demo_pending_def init_state_def getOrCreateNzbdavStream_def cleanupNzbdavCache_def
      Let_def fun_eq_iff)


section \<open>Properties of the poller\<close>

lemma round_time_shift:
  "round_time env (now + elapsed env i + NZBDAV_POLL_INTERVAL_MS) (Suc i) j =
   round_time env now i (Suc j)"
  by (induction j) simp_all

lemma round_time_lower: "now + NZBDAV_POLL_INTERVAL_MS * j \<le> round_time env now i j"
  by (induction j) (simp_all add: algebra_simps)

lemma waitLoop_rounds:
  "\<exists>n. (\<forall>j<n. round_time env now i j < deadline \<and> pollOnce nzo cat (reply env (i + j)) = None) \<and>
       (if round_time env now i n < deadline
        then pollOnce nzo cat (reply env (i + n)) = Some (waitLoop env nzo cat deadline now i)
        else waitLoop env nzo cat deadline now i = Inl timeoutError)"
proof (induction env nzo cat deadline now i rule: waitLoop.induct)
  case (1 env nzo cat deadline now i)
  show ?case
  proof (cases "now < deadline")
    case False
    then have "waitLoop env nzo cat deadline now i = Inl timeoutError"
      by (simp add: waitLoop.simps)
    then show ?thesis using False by (intro exI[of _ 0]) simp
  next
    case True
    show ?thesis
    proof (cases "pollOnce nzo cat (reply env i)")
      case (Some r)
      then have "waitLoop env nzo cat deadline now i = r"
        using True by (simp add: waitLoop.simps)
      then show ?thesis using True Some by (intro exI[of _ 0]) simp
    next
      case None
      let ?now' = "now + elapsed env i + NZBDAV_POLL_INTERVAL_MS"
      have eq: "waitLoop env nzo cat deadline now i = waitLoop env nzo cat deadline ?now' (Suc i)"
        using True None by (simp add: waitLoop.simps)
      from "1.IH"[OF True None] obtain n where
        a: "\<forall>j<n. round_time env ?now' (Suc i) j < deadline \<and>
               pollOnce nzo cat (reply env (Suc i + j)) = None"
        and b: "if round_time env ?now' (Suc i) n < deadline
           then pollOnce nzo cat (reply env (Suc i + n)) =
                  Some (waitLoop env nzo cat deadline ?now' (Suc i))
           else waitLoop env nzo cat deadline ?now' (Suc i) = Inl timeoutError"
        by blast
      have a': "\<forall>j<Suc n. round_time env now i j < deadline \<and>
               pollOnce nzo cat (reply env (i + j)) = None"
      proof (intro allI impI)
        fix j assume "j < Suc n"
        show "round_time env now i j < deadline \<and> pollOnce nzo cat (reply env (i + j)) = None"
        proof (cases j)
          case 0
          then show ?thesis using True None by simp
        next
          case (Suc j')
          then have "j' < n" using \<open>j < Suc n\<close> by simp
          then show ?thesis using a Suc round_time_shift[of env now i j'] by auto
        qed
      qed
      have b': "if round_time env now i (Suc n) < deadline
           then pollOnce nzo cat (reply env (i + Suc n)) = Some (waitLoop env nzo cat deadline now i)
           else waitLoop env nzo cat deadline now i = Inl timeoutError"
        using b unfolding eq round_time_shift by (simp split: if_splits)
      show ?thesis using a' b' by (intro exI[of _ "Suc n"]) blast
    qed
  qed
qed


lemma rounds_bound:
  assumes "\<forall>j<n. round_time env start 0 j < start + NZBDAV_POLL_TIMEOUT_MS"
  shows "n \<le> 40"
proof (rule ccontr)
  assume "\<not> n \<le> 40"
  then have "round_time env start 0 40 < start + NZBDAV_POLL_TIMEOUT_MS" using assms by simp
  moreover have "start + NZBDAV_POLL_INTERVAL_MS * 40 \<le> round_time env start 0 40"
    by (rule round_time_lower)
  ultimately show False
    by (simp add: NZBDAV_POLL_INTERVAL_MS_def NZBDAV_POLL_TIMEOUT_MS_def)
qed

lemma pollOnce_failed:
  assumes "data_status d" and "find (\<lambda>entry. entryId entry = Some nzo) (slots d) = Some slot"
    and "slotStatus slot = ''failed''"
  shows "pollOnce nzo cat (Response http d) = Some (Inl (failureError (slotFailMessage slot) nzo cat))"
  using assms by (simp add: pollOnce_def)

text \<open>
  C5 (poller classification). With the manager configured, the poller runs at most 40
  rounds: every round before the last one checked the clock before the deadline of 80
  seconds and saw neither a terminal status nor an error, and each round starts
  exactly 2 seconds after the previous one went to sleep. If the last round starts
  before the deadline, the function ends as that round decides; otherwise it throws the
  timeout error, which is not marked as a job failure. A round decides as follows: a
  rejected query throws its error, a reply without \<^verbatim>\<open>status\<close> throws an unmarked error,
  the first slot with the job's id returns that slot when its status is
  \<^verbatim>\<open>completed\<close>, throws the error marked as a job failure with the slot's failure
  message, the job id and the category when it is \<^verbatim>\<open>failed\<close>, and polling goes on for
  any other status or when no slot has the id.
\<close>

theorem poller_classification:
  assumes "ensureNzbdavConfigured cfg = None"
  shows "(\<exists>n\<le>40.
            (\<forall>j<n. round_time env start 0 j < start + 80000 \<and> pollOnce nzo cat (reply env j) = None) \<and>
            (if round_time env start 0 n < start + 80000
             then pollOnce nzo cat (reply env n) = Some (waitForNzbdavHistorySlot cfg env start nzo cat)
             else waitForNzbdavHistorySlot cfg env start nzo cat = Inl timeoutError)) \<and>
         (\<forall>j. round_time env start 0 (Suc j) = round_time env start 0 j + elapsed env j + 2000) \<and>
         \<not> isNzbdavFailure timeoutError \<and>
         (\<forall>e. pollOnce nzo cat (Rejected e) = Some (Inl e)) \<and>
         (\<forall>http d. \<not> data_status d \<longrightarrow>
            (\<exists>e. pollOnce nzo cat (Response http d) = Some (Inl e) \<and> \<not> isNzbdavFailure e)) \<and>
         (\<forall>http d slot. data_status d \<and>
              find (\<lambda>entry. entryId entry = Some nzo) (slots d) = Some slot \<longrightarrow>
            (slotStatus slot = ''completed'' \<longrightarrow> pollOnce nzo cat (Response http d) = Some (Inr slot)) \<and>
            (slotStatus slot = ''failed'' \<longrightarrow>
               (\<exists>e. pollOnce nzo cat (Response http d) = Some (Inl e) \<and> isNzbdavFailure e \<and>
                    failureMessage e = Some (slotFailMessage slot) \<and>
                    nzoId e = Some nzo \<and> category e = Some cat)) \<and>
            (slotStatus slot \<noteq> ''completed'' \<and> slotStatus slot \<noteq> ''failed'' \<longrightarrow>
               pollOnce nzo cat (Response http d) = None)) \<and>
         (\<forall>http d. data_status d \<and> find (\<lambda>entry. entryId entry = Some nzo) (slots d) = None \<longrightarrow>
            pollOnce nzo cat (Response http d) = None)"
proof -
  have w: "waitForNzbdavHistorySlot cfg env start nzo cat =
      waitLoop env nzo cat (start + NZBDAV_POLL_TIMEOUT_MS) start 0"
    using assms by (simp add: waitForNzbdavHistorySlot_def)
  from waitLoop_rounds[of env start 0 "start + NZBDAV_POLL_TIMEOUT_MS" nzo cat] obtain n where
    a: "\<forall>j<n. round_time env start 0 j < start + NZBDAV_POLL_TIMEOUT_MS \<and>
            pollOnce nzo cat (reply env (0 + j)) = None"
    and b: "if round_time env start 0 n < start + NZBDAV_POLL_TIMEOUT_MS
        then pollOnce nzo cat (reply env (0 + n)) =
               Some (waitLoop env nzo cat (start + NZBDAV_POLL_TIMEOUT_MS) start 0)
        else waitLoop env nzo cat (start + NZBDAV_POLL_TIMEOUT_MS) start 0 = Inl timeoutError"
    by blast
  have n40: "n \<le> 40" using a by (intro rounds_bound[of n env start]) simp
  have 1: "\<exists>n\<le>40.
            (\<forall>j<n. round_time env start 0 j < start + 80000 \<and> pollOnce nzo cat (reply env j) = None) \<and>
            (if round_time env start 0 n < start + 80000
             then pollOnce nzo cat (reply env n) = Some (waitForNzbdavHistorySlot cfg env start nzo cat)
             else waitForNzbdavHistorySlot cfg env start nzo cat = Inl timeoutError)"
    using a b n40 unfolding w NZBDAV_POLL_TIMEOUT_MS_def by (intro exI[of _ n]) (simp split: if_splits)
  have 2: "\<forall>j. round_time env start 0 (Suc j) = round_time env start 0 j + elapsed env j + 2000"
    by (simp add: NZBDAV_POLL_INTERVAL_MS_def)
  have 3: "\<not> isNzbdavFailure timeoutError" by (simp add: timeoutError_def Error_def)
  have 4: "\<forall>e. pollOnce nzo cat (Rejected e) = Some (Inl e)" by (simp add: pollOnce_def)
  have 5: "\<forall>http d. \<not> data_status d \<longrightarrow>
            (\<exists>e. pollOnce nzo cat (Response http d) = Some (Inl e) \<and> \<not> isNzbdavFailure e)"
    by (simp add: pollOnce_def Error_def)
  have 6: "\<forall>http d slot. data_status d \<and>
              find (\<lambda>entry. entryId entry = Some nzo) (slots d) = Some slot \<longrightarrow>
            (slotStatus slot = ''completed'' \<longrightarrow> pollOnce nzo cat (Response http d) = Some (Inr slot)) \<and>
            (slotStatus slot = ''failed'' \<longrightarrow>
               (\<exists>e. pollOnce nzo cat (Response http d) = Some (Inl e) \<and> isNzbdavFailure e \<and>
                    failureMessage e = Some (slotFailMessage slot) \<and>
                    nzoId e = Some nzo \<and> category e = Some cat)) \<and>
            (slotStatus slot \<noteq> ''completed'' \<and> slotStatus slot \<noteq> ''failed'' \<longrightarrow>
               pollOnce nzo cat (Response http d) = None)"
  proof (intro allI impI conjI)
    fix http :: nat and d :: history_data and slot :: js_object
    assume h: "data_status d \<and> find (\<lambda>entry. entryId entry = Some nzo) (slots d) = Some slot"
    {
      assume "slotStatus slot = ''completed''"
      then show "pollOnce nzo cat (Response http d) = Some (Inr slot)"
        using h by (simp add: pollOnce_def)
    }
    {
      assume f: "slotStatus slot = ''failed''"
      have "pollOnce nzo cat (Response http d) =
          Some (Inl (failureError (slotFailMessage slot) nzo cat))"
        using h f by (simp add: pollOnce_failed)
      then show "\<exists>e. pollOnce nzo cat (Response http d) = Some (Inl e) \<and> isNzbdavFailure e \<and>
                    failureMessage e = Some (slotFailMessage slot) \<and>
                    nzoId e = Some nzo \<and> category e = Some cat"
        by (simp add: failureError_def Error_def)
    }
    {
      assume "slotStatus slot \<noteq> ''completed'' \<and> slotStatus slot \<noteq> ''failed''"
      then show "pollOnce nzo cat (Response http d) = None"
        using h by (simp add: pollOnce_def)
    }
  qed
  have 7: "\<forall>http d. data_status d \<and> find (\<lambda>entry. entryId entry = Some nzo) (slots d) = None \<longrightarrow>
            pollOnce nzo cat (Response http d) = None"
    by (simp add: pollOnce_def)
  show ?thesis using 1 2 3 4 5 6 7 by blast
qed


lemma demo_completed:
  "waitForNzbdavHistorySlot demo_cfg (demo_env ''Completed'' 30) 1000 ''nzo1'' ''Movies'' =
     Inr (demo_slot ''Completed'')"
  by (simp add: waitForNzbdavHistorySlot_def ensureNzbdavConfigured_def demo_cfg_def Error_def
      waitLoop.simps demo_env_def demo_history_def demo_slot_def pollOnce_def entryId_def
      slotStatus_def orElse_def truthy_def field_def toLowerCase_def toLowerChar_def
      NZBDAV_POLL_TIMEOUT_MS_def NZBDAV_POLL_INTERVAL_MS_def)

lemma demo_failed:
  "waitForNzbdavHistorySlot demo_cfg (demo_env ''Failed'' 30) 1000 ''nzo1'' ''Movies'' =
     Inl \<lparr>message = ''[NZBDAV] NZB failed: missing articles'', isNzbdavFailure = True,
       failureMessage = Some ''missing articles'', nzoId = Some ''nzo1'',
       category = Some ''Movies'', response_status = None,
       downloadUrl = None, title = None\<rparr>"
  by (simp add: waitForNzbdavHistorySlot_def ensureNzbdavConfigured_def demo_cfg_def Error_def
      waitLoop.simps demo_env_def demo_history_def demo_slot_def pollOnce_def entryId_def
      slotStatus_def slotFailMessage_def failureError_def orElse_def truthy_def field_def
      toLowerCase_def toLowerChar_def NZBDAV_POLL_TIMEOUT_MS_def NZBDAV_POLL_INTERVAL_MS_def)

lemma demo_timeout:
  "waitForNzbdavHistorySlot demo_cfg (demo_env ''Downloading'' 30000) 1000 ''nzo1'' ''Movies'' =
     Inl timeoutError"
  by (simp add: waitForNzbdavHistorySlot_def ensureNzbdavConfigured_def demo_cfg_def Error_def
      waitLoop.simps demo_env_def demo_history_def demo_slot_def pollOnce_def entryId_def
      slotStatus_def orElse_def truthy_def field_def toLowerCase_def toLowerChar_def
      NZBDAV_POLL_TIMEOUT_MS_def NZBDAV_POLL_INTERVAL_MS_def)


theorem poller_classification_witness:
  "ensureNzbdavConfigured demo_cfg = None \<and>
   waitForNzbdavHistorySlot demo_cfg (demo_env ''Completed'' 30) 1000 ''nzo1'' ''Movies'' =
     Inr (demo_slot ''Completed'') \<and>
   waitForNzbdavHistorySlot demo_cfg (demo_env ''Failed'' 30) 1000 ''nzo1'' ''Movies'' =
     Inl \<lparr>message = ''[NZBDAV] NZB failed: missing articles'', isNzbdavFailure = True,
       failureMessage = Some ''missing articles'', nzoId = Some ''nzo1'',
       category = Some ''Movies'', response_status = None,
       downloadUrl = None, title = None\<rparr> \<and>
   waitForNzbdavHistorySlot demo_cfg (demo_env ''Downloading'' 30000) 1000 ''nzo1'' ''Movies'' =
     Inl timeoutError \<and>
   \<not> isNzbdavFailure timeoutError \<and>
   (\<exists>n\<le>40.
      (\<forall>j<n. round_time (demo_env ''Completed'' 30) 1000 0 j < 1000 + 80000 \<and>
             pollOnce ''nzo1'' ''Movies'' (reply (demo_env ''Completed'' 30) j) = None) \<and>
      round_time (demo_env ''Completed'' 30) 1000 0 n < 1000 + 80000 \<and>
      pollOnce ''nzo1'' ''Movies'' (reply (demo_env ''Completed'' 30) n) =
        Some (Inr (demo_slot ''Completed'')))"
proof -
  have cfg: "ensureNzbdavConfigured demo_cfg = None"
    by (simp add: ensureNzbdavConfigured_def demo_cfg_def)
  note T = poller_classification[OF cfg, of "demo_env ''Completed'' 30" 1000 "''nzo1''" "''Movies''"]
  have nt: "\<not> isNzbdavFailure timeoutError" using T by blast
  from T obtain n where n: "n \<le> 40"
    and a: "\<forall>j<n. round_time (demo_env ''Completed'' 30) 1000 0 j < 1000 + 80000 \<and>
             pollOnce ''nzo1'' ''Movies'' (reply (demo_env ''Completed'' 30) j) = None"
    and b: "if round_time (demo_env ''Completed'' 30) 1000 0 n < 1000 + 80000
        then pollOnce ''nzo1'' ''Movies'' (reply (demo_env ''Completed'' 30) n) =
               Some (waitForNzbdavHistorySlot demo_cfg (demo_env ''Completed'' 30) 1000 ''nzo1'' ''Movies'')
        else waitForNzbdavHistorySlot demo_cfg (demo_env ''Completed'' 30) 1000 ''nzo1'' ''Movies'' =
               Inl timeoutError"
    by blast
  have c: "round_time (demo_env ''Completed'' 30) 1000 0 n < 1000 + 80000 \<and>
      pollOnce ''nzo1'' ''Movies'' (reply (demo_env ''Completed'' 30) n) =
        Some (Inr (demo_slot ''Completed''))"
    using b unfolding demo_completed by (simp split: if_splits)
  have "\<exists>n\<le>40.
      (\<forall>j<n. round_time (demo_env ''Completed'' 30) 1000 0 j < 1000 + 80000 \<and>
             pollOnce ''nzo1'' ''Movies'' (reply (demo_env ''Completed'' 30) j) = None) \<and>
      round_time (demo_env ''Completed'' 30) 1000 0 n < 1000 + 80000 \<and>
      pollOnce ''nzo1'' ''Movies'' (reply (demo_env ''Completed'' 30) n) =
        Some (Inr (demo_slot ''Completed''))"
    using n a c by blast
  then show ?thesis using cfg nt demo_completed demo_failed demo_timeout by blast
qed

section \<open>Properties of the locator\<close>

lemma bfs_done: "queue st = [] \<Longrightarrow> bfs ls req st = st"
  by (simp add: bfs.simps)

lemma bfs_skip:
  "queue st = (p, d) # rest \<Longrightarrow> d > NZBDAV_MAX_DIRECTORY_DEPTH \<or> p \<in> set (visited st) \<Longrightarrow>
   bfs ls req st = bfs ls req (st\<lparr>queue := rest\<rparr>)"
  by (subst bfs.simps) auto

lemma bfs_fail:
  "queue st = (p, d) # rest \<Longrightarrow> d \<le> NZBDAV_MAX_DIRECTORY_DEPTH \<Longrightarrow> p \<notin> set (visited st) \<Longrightarrow>
   ls p = None \<Longrightarrow>
   bfs ls req st =
     bfs ls req (st\<lparr>queue := rest, visited := p # visited st, listed := listed st @ [(p, d)]\<rparr>)"
  by (subst bfs.simps) auto

lemma bfs_list:
  "queue st = (p, d) # rest \<Longrightarrow> d \<le> NZBDAV_MAX_DIRECTORY_DEPTH \<Longrightarrow> p \<notin> set (visited st) \<Longrightarrow>
   ls p = Some entries \<Longrightarrow>
   bfs ls req st =
     bfs ls req (scanEntries req p d entries
       (st\<lparr>queue := rest, visited := p # visited st, listed := listed st @ [(p, d)]\<rparr>))"
  by (subst bfs.simps) auto

text \<open>A property kept by every round of the loop holds when the loop ends.\<close>

lemma bfs_invariant:
  assumes "P st"
    and skip: "\<And>st p d rest. P st \<Longrightarrow> queue st = (p, d) # rest \<Longrightarrow>
        d > NZBDAV_MAX_DIRECTORY_DEPTH \<or> p \<in> set (visited st) \<Longrightarrow> P (st\<lparr>queue := rest\<rparr>)"
    and fail: "\<And>st p d rest. P st \<Longrightarrow> queue st = (p, d) # rest \<Longrightarrow>
        d \<le> NZBDAV_MAX_DIRECTORY_DEPTH \<Longrightarrow> p \<notin> set (visited st) \<Longrightarrow> ls p = None \<Longrightarrow>
        P (st\<lparr>queue := rest, visited := p # visited st, listed := listed st @ [(p, d)]\<rparr>)"
    and list: "\<And>st p d rest entries. P st \<Longrightarrow> queue st = (p, d) # rest \<Longrightarrow>
        d \<le> NZBDAV_MAX_DIRECTORY_DEPTH \<Longrightarrow> p \<notin> set (visited st) \<Longrightarrow> ls p = Some entries \<Longrightarrow>
        P (scanEntries req p d entries
             (st\<lparr>queue := rest, visited := p # visited st, listed := listed st @ [(p, d)]\<rparr>))"
  shows "P (bfs ls req st) \<and> queue (bfs ls req st) = []"
  using assms
proof (induction ls req st rule: bfs.induct)
  case (1 ls req st)
  note P = "1.prems"(1) and skip = "1.prems"(2) and fail = "1.prems"(3) and list = "1.prems"(4)
  show ?case
  proof (cases "queue st")
    case Nil
    then show ?thesis using P by (simp add: bfs_done)
  next
    case (Cons x rest)
    obtain p d where x: "x = (p, d)" by (cases x)
    have q: "queue st = (p, d) # rest" using Cons x by simp
    show ?thesis
    proof (cases "d > NZBDAV_MAX_DIRECTORY_DEPTH")
      case True
      have P': "P (st\<lparr>queue := rest\<rparr>)" using skip[OF P q] True by simp
      have "P (bfs ls req (st\<lparr>queue := rest\<rparr>)) \<and> queue (bfs ls req (st\<lparr>queue := rest\<rparr>)) = []"
        by (rule "1.IH"(1)[OF Cons x[symmetric] True P' skip fail list])
      then show ?thesis
        using bfs_skip[OF q, of ls req] True by simp
    next
      case False
      show ?thesis
      proof (cases "p \<in> set (visited st)")
        case True
        have P': "P (st\<lparr>queue := rest\<rparr>)" using skip[OF P q] True by simp
        have "P (bfs ls req (st\<lparr>queue := rest\<rparr>)) \<and> queue (bfs ls req (st\<lparr>queue := rest\<rparr>)) = []"
          by (rule "1.IH"(2)[OF Cons x[symmetric] False True P' skip fail list])
        then show ?thesis
          using bfs_skip[OF q, of ls req] True by simp
      next
        case nv: False
        have dle: "d \<le> NZBDAV_MAX_DIRECTORY_DEPTH" using False by simp
        show ?thesis
        proof (cases "ls p")
          case None
          let ?st' = "st\<lparr>queue := rest, visited := p # visited st, listed := listed st @ [(p, d)]\<rparr>"
          have P': "P ?st'" by (rule fail[OF P q dle nv None])
          have "P (bfs ls req ?st') \<and> queue (bfs ls req ?st') = []"
            by (rule "1.IH"(3)[OF Cons x[symmetric] False nv None P' skip fail list])
          then show ?thesis
            using bfs_fail[of st p d rest ls req] q dle nv None by simp
        next
          case (Some entries)
          let ?st' = "scanEntries req p d entries
             (st\<lparr>queue := rest, visited := p # visited st, listed := listed st @ [(p, d)]\<rparr>)"
          have P': "P ?st'" by (rule list[OF P q dle nv Some])
          have "P (bfs ls req ?st') \<and> queue (bfs ls req ?st') = []"
            by (rule "1.IH"(4)[OF Cons x[symmetric] False nv Some P' skip fail list])
          then show ?thesis
            using bfs_list[of st p d rest ls entries req] q dle nv Some by simp
        qed
      qed
    qed
  qed
qed


lemma best_of_snoc_larger: "best_of cs best \<Longrightarrow> larger c best \<Longrightarrow> best_of (cs @ [c]) (Some c)"
  by (cases best) (auto simp: best_of_def larger_def)

lemma best_of_snoc_keep: "best_of cs best \<Longrightarrow> \<not> larger c best \<Longrightarrow> best_of (cs @ [c]) best"
  by (cases best) (auto simp: best_of_def larger_def)

lemma visitEntry_directory:
  "entry_isDirectory e \<Longrightarrow>
   visitEntry req p d e st = st\<lparr>queue := queue st @ [(nextPath p e, d + 1)]\<rparr>"
  by (simp add: visitEntry_def)

lemma visitEntry_other:
  "\<not> entry_isDirectory e \<Longrightarrow> \<not> isVideoEntry e \<Longrightarrow> visitEntry req p d e st = st"
  by (auto simp: visitEntry_def isVideoEntry_def)

lemma visitEntry_video:
  assumes "isVideoEntry e"
  shows "bestMatch (visitEntry req p d e st) =
           (if larger (mkCandidate req p e) (bestMatch st) then Some (mkCandidate req p e)
            else bestMatch st)"
    and "bestEpisodeMatch (visitEntry req p d e st) =
           (if matchesEpisode (mkCandidate req p e) \<and> larger (mkCandidate req p e) (bestEpisodeMatch st)
            then Some (mkCandidate req p e) else bestEpisodeMatch st)"
    and "found (visitEntry req p d e st) = found st @ [mkCandidate req p e]"
    and "queue (visitEntry req p d e st) = queue st"
    and "visited (visitEntry req p d e st) = visited st"
    and "listed (visitEntry req p d e st) = listed st"
  using assms by (auto simp: visitEntry_def isVideoEntry_def Let_def)

lemma visitEntry_found:
  "found (visitEntry req p d e st) =
     found st @ (if isVideoEntry e then [mkCandidate req p e] else [])"
proof (cases "isVideoEntry e")
  case True
  then show ?thesis by (simp add: visitEntry_video)
next
  case False
  then show ?thesis
    by (cases "entry_isDirectory e") (simp_all add: visitEntry_directory visitEntry_other)
qed

lemma visitEntry_best:
  assumes "best_of (found st) (bestMatch st)"
  shows "best_of (found (visitEntry req p d e st)) (bestMatch (visitEntry req p d e st))"
proof (cases "isVideoEntry e")
  case True
  then show ?thesis
    using assms by (simp add: visitEntry_video best_of_snoc_larger best_of_snoc_keep)
next
  case False
  then show ?thesis using assms
    by (cases "entry_isDirectory e") (simp_all add: visitEntry_directory visitEntry_other)
qed

lemma visitEntry_best_episode:
  assumes "best_of (filter matchesEpisode (found st)) (bestEpisodeMatch st)"
  shows "best_of (filter matchesEpisode (found (visitEntry req p d e st)))
           (bestEpisodeMatch (visitEntry req p d e st))"
proof (cases "isVideoEntry e")
  case True
  then show ?thesis
    using assms by (simp add: visitEntry_video best_of_snoc_larger best_of_snoc_keep)
next
  case False
  then show ?thesis using assms
    by (cases "entry_isDirectory e") (simp_all add: visitEntry_directory visitEntry_other)
qed

lemma visitEntry_visited_listed:
  "visited (visitEntry req p d e st) = visited st \<and> listed (visitEntry req p d e st) = listed st"
  by (simp add: visitEntry_def Let_def)

lemma scanEntries_visited_listed:
  "visited (scanEntries req p d entries st) = visited st \<and>
   listed (scanEntries req p d entries st) = listed st"
  by (induction entries arbitrary: st) (simp_all add: visitEntry_visited_listed)

lemma scanEntries_found:
  "found (scanEntries req p d entries st) =
     found st @ map (mkCandidate req p) (filter isVideoEntry entries)"
  by (induction entries arbitrary: st) (simp_all add: visitEntry_found)

lemma scanEntries_best:
  "best_of (found st) (bestMatch st) \<Longrightarrow>
   best_of (found (scanEntries req p d entries st)) (bestMatch (scanEntries req p d entries st))"
  by (induction entries arbitrary: st) (simp_all add: visitEntry_best)

lemma scanEntries_best_episode:
  "best_of (filter matchesEpisode (found st)) (bestEpisodeMatch st) \<Longrightarrow>
   best_of (filter matchesEpisode (found (scanEntries req p d entries st)))
     (bestEpisodeMatch (scanEntries req p d entries st))"
  by (induction entries arbitrary: st) (simp_all add: visitEntry_best_episode)

lemma queue_size_Cons:
  "queue_size ls ((p, d) # rest) =
     subtree_size ls (Suc NZBDAV_MAX_DIRECTORY_DEPTH - d) p + queue_size ls rest"
  by (simp add: queue_size_def)

lemma subdirs_level:
  assumes "p \<in> set (level ls root d)" and "ls p = Some entries" and "e \<in> set entries"
    and "entry_isDirectory e"
  shows "nextPath p e \<in> set (level ls root (Suc d))"
proof -
  have "nextPath p e \<in> set (subdirs ls p)"
    using assms(2,3,4) by (simp add: subdirs_def)
  then show ?thesis using assms(1) by auto
qed

lemma trav_inv_skip:
  assumes "trav_inv ls req root N st" and "queue st = (p, d) # rest"
  shows "trav_inv ls req root N (st\<lparr>queue := rest\<rparr>)"
proof -
  have "queue_size ls rest \<le> queue_size ls (queue st)"
    using assms(2) by (simp add: queue_size_Cons)
  then show ?thesis
    using assms unfolding trav_inv_def by auto
qed

lemma trav_inv_fail:
  assumes "trav_inv ls req root N st" and "queue st = (p, d) # rest"
    and "d \<le> NZBDAV_MAX_DIRECTORY_DEPTH" and "p \<notin> set (visited st)" and "ls p = None"
  shows "trav_inv ls req root N
           (st\<lparr>queue := rest, visited := p # visited st, listed := listed st @ [(p, d)]\<rparr>)"
proof -
  have "Suc (queue_size ls rest) \<le> queue_size ls (queue st)"
    using assms(2) subtree_size_pos[of ls "Suc NZBDAV_MAX_DIRECTORY_DEPTH - d" p]
    by (simp add: queue_size_Cons)
  moreover have "dir_candidates req ls p = []" using assms(5) by (simp add: dir_candidates_def)
  ultimately show ?thesis
    using assms unfolding trav_inv_def by auto
qed

lemma trav_inv_list:
  assumes "trav_inv ls req root N st" and "queue st = (p, d) # rest"
    and "d \<le> NZBDAV_MAX_DIRECTORY_DEPTH" and "p \<notin> set (visited st)" and "ls p = Some entries"
  shows "trav_inv ls req root N
           (scanEntries req p d entries
              (st\<lparr>queue := rest, visited := p # visited st, listed := listed st @ [(p, d)]\<rparr>))"
proof -
  let ?st0 = "st\<lparr>queue := rest, visited := p # visited st, listed := listed st @ [(p, d)]\<rparr>"
  let ?st' = "scanEntries req p d entries ?st0"
  have inv: "best_of (found st) (bestMatch st)"
    "best_of (filter matchesEpisode (found st)) (bestEpisodeMatch st)"
    "found st = concat (map (\<lambda>(p, d). dir_candidates req ls p) (listed st))"
    "visited st = rev (map fst (listed st))"
    "distinct (visited st)"
    "\<forall>(p, d)\<in>set (listed st). d \<le> NZBDAV_MAX_DIRECTORY_DEPTH"
    "\<forall>(p, d)\<in>set (queue st) \<union> set (listed st). p \<in> set (level ls root d)"
    "length (listed st) + queue_size ls (queue st) \<le> N"
    using assms(1) unfolding trav_inv_def by blast+
  have 1: "best_of (found ?st') (bestMatch ?st')"
    using inv(1) by (intro scanEntries_best) simp
  have 2: "best_of (filter matchesEpisode (found ?st')) (bestEpisodeMatch ?st')"
    using inv(2) by (intro scanEntries_best_episode) simp
  have vl: "visited ?st' = p # visited st" "listed ?st' = listed st @ [(p, d)]"
    by (simp_all add: scanEntries_visited_listed)
  have f': "found ?st' = found st @ map (mkCandidate req p) (filter isVideoEntry entries)"
    by (simp add: scanEntries_found)
  have 3: "found ?st' = concat (map (\<lambda>(p, d). dir_candidates req ls p) (listed ?st'))"
    unfolding f' vl using inv(3) assms(5) by (simp add: dir_candidates_def)
  have 4: "visited ?st' = rev (map fst (listed ?st'))" unfolding vl using inv(4) by simp
  have 5: "distinct (visited ?st')" unfolding vl using inv(5) assms(4) by simp
  have 6: "\<forall>(p, d)\<in>set (listed ?st'). d \<le> NZBDAV_MAX_DIRECTORY_DEPTH"
    unfolding vl using inv(6) assms(3) by auto
  have pl: "p \<in> set (level ls root d)" using inv(7) assms(2) by auto
  have q': "queue ?st' = rest @ map (\<lambda>e. (nextPath p e, d + 1)) (filter entry_isDirectory entries)"
    by (simp add: scanEntries_queue)
  have 7: "\<forall>(p, d)\<in>set (queue ?st') \<union> set (listed ?st'). p \<in> set (level ls root d)"
  proof -
    have a: "\<forall>(p', d')\<in>set rest \<union> set (listed st). p' \<in> set (level ls root d')"
      using inv(7) assms(2) by auto
    have b: "\<forall>e\<in>set (filter entry_isDirectory entries). nextPath p e \<in> set (level ls root (Suc d))"
      using subdirs_level[of p ls root d entries] pl assms(5) by auto
    show ?thesis
      unfolding q' vl using a b pl by auto
  qed
  have "queue_size ls (queue ?st') < queue_size ls ((p, d) # rest)"
    unfolding q' using queue_size_step[of d ls p entries rest] assms(3,5) by simp
  then have 8: "length (listed ?st') + queue_size ls (queue ?st') \<le> N"
    unfolding vl using inv(8) assms(2) by simp
  show ?thesis
    unfolding trav_inv_def using 1 2 3 4 5 6 7 8 by blast
qed

lemma trav_inv_final:
  "trav_inv ls req (rootPath cat jobName) (subtree_size ls (Suc NZBDAV_MAX_DIRECTORY_DEPTH) (rootPath cat jobName))
     (traversal ls cat jobName req) \<and> queue (traversal ls cat jobName req) = []"
  unfolding traversal_def
proof (rule bfs_invariant)
  show "trav_inv ls req (rootPath cat jobName)
     (subtree_size ls (Suc NZBDAV_MAX_DIRECTORY_DEPTH) (rootPath cat jobName))
     \<lparr>queue = [(rootPath cat jobName, 0)], visited = [], bestMatch = None,
        bestEpisodeMatch = None, listed = [], found = []\<rparr>"
    by (simp add: trav_inv_def best_of_def queue_size_def)
qed (auto intro: trav_inv_skip trav_inv_fail trav_inv_list)


lemma best_of_None: "best_of cs None \<longleftrightarrow> cs = []"
  by (simp add: best_of_def)





lemma demo_numbers: "numberToString 1 = ''1''" "numberToString 3 = ''3''"
  by (simp_all add: numberToString_def natToString_def dec.simps)



text \<open>
  A season of \<open>10^21\<close> prints in exponent form, so the expression asks for the
  character 1, one or more letters e, and 21.
\<close>

lemma demo_exponent_length: "length (dec 1000000000000000000000) = 22"
  by (simp add: dec.simps)

lemma demo_exponent_digits: "numberDigits 1000000000000000000000 = (1, 1, 22)"
  by (simp add: numberDigits_def Let_def demo_exponent_length shortestDigits.simps toDouble_def bitLength.simps)

lemma demo_exponent_string: "numberToString 1000000000000000000000 = ''1e+21''"
  by (simp add: numberToString_def natToString_def demo_exponent_digits) (simp add: dec.simps)

lemma demo_exponent_patterns:
  "episodePatterns \<lparr>season = 1000000000000000000000, episode = 1\<rparr> =
     [[Lit CHR ''s'', Star CHR ''0'', Lit CHR ''1'', Plus CHR ''e'', Lit CHR ''2'', Lit CHR ''1'',
       Lit CHR ''e'', Star CHR ''0'', Lit CHR ''1'', NoDigitAhead],
      [Lit CHR ''s'', Star CHR ''0'', Lit CHR ''1'', Plus CHR ''e'', Lit CHR ''2'', Lit CHR ''1'',
       OptAny, Lit CHR ''e'', Star CHR ''0'', Lit CHR ''1'', NoDigitAhead],
      [Star CHR ''0'', Lit CHR ''1'', Plus CHR ''e'', Lit CHR ''2'', Lit CHR ''1'',
       Lit CHR ''x'', Star CHR ''0'', Lit CHR ''1'', NoDigitAhead],
      [Lit CHR ''e'', Lit CHR ''p'', Lit CHR ''i'', Lit CHR ''s'', Lit CHR ''o'', Lit CHR ''d'', Lit CHR ''e'',
       OptAny, Star CHR ''s'', Star CHR ''0'', Lit CHR ''1'', NoDigitAhead],
      [Lit CHR ''e'', Lit CHR ''p'', OptAny, Star CHR ''s'', Star CHR ''0'', Lit CHR ''1'', NoDigitAhead]]"
  by (simp add: episodePatterns_def demo_exponent_string demo_numbers lits_def)

lemma demo_exponent_matches:
  "fileMatchesEpisode ''s1eee21e1.mkv'' (Some \<lparr>season = 1000000000000000000000, episode = 1\<rparr>)"
  "\<not> fileMatchesEpisode ''s1000000000000000000000e1.mkv''
       (Some \<lparr>season = 1000000000000000000000, episode = 1\<rparr>)"
  unfolding fileMatchesEpisode_def option.case demo_exponent_patterns
  by code_simp+

text \<open>
  The number \<open>2^64\<close> prints with the 17 digits that suffice to read it back, and
  zeros.
\<close>

lemma demo_rounded_length: "length (dec 18446744073709551616) = 20"
  by (simp add: dec.simps)

lemma demo_rounded_digits: "numberDigits 18446744073709551616 = (18446744073709552, 17, 20)"
  by (simp add: numberDigits_def Let_def demo_rounded_length shortestDigits.simps toDouble_def
      bitLength.simps)

lemma demo_rounded_string: "numberToString 18446744073709551616 = ''18446744073709552000''"
proof -
  have z: "replicate 3 c = [c, c, c]" for c :: char
    by (simp add: numeral_3_eq_3)
  show ?thesis
    by (simp add: numberToString_def natToString_def demo_rounded_digits z) (simp add: dec.simps)
qed

lemmas locate_eval = traversal_def rootPath_def bfs.simps visitEntry_def mkCandidate_def
  nextPath_def normalizeNzbdavPath_def larger_def Let_def NZBDAV_MAX_DIRECTORY_DEPTH_def








lemma failures_empty_Some: "ls p = Some entries \<Longrightarrow> failures_empty ls p = Some entries"
  by (simp add: failures_empty_def)

lemma failures_empty_None: "ls p = None \<Longrightarrow> failures_empty ls p = Some []"
  by (simp add: failures_empty_def)

text \<open>A listing that fails is passed over exactly as an empty directory is.\<close>

lemma bfs_failures_empty: "bfs (failures_empty ls) req st = bfs ls req st"
proof (induction ls req st rule: bfs.induct)
  case (1 ls req st)
  show ?case
  proof (cases "queue st")
    case Nil
    then show ?thesis by (simp add: bfs_done)
  next
    case (Cons x rest)
    obtain p d where x: "x = (p, d)" by (cases x)
    have q: "queue st = (p, d) # rest" using Cons x by simp
    show ?thesis
    proof (cases "d > NZBDAV_MAX_DIRECTORY_DEPTH")
      case True
      have "bfs (failures_empty ls) req st = bfs (failures_empty ls) req (st\<lparr>queue := rest\<rparr>)"
        using bfs_skip[of st p d rest "failures_empty ls" req] q True by simp
      also have "\<dots> = bfs ls req (st\<lparr>queue := rest\<rparr>)"
        by (rule "1.IH"(1)[OF Cons x[symmetric] True])
      also have "\<dots> = bfs ls req st"
        using bfs_skip[of st p d rest ls req] q True by simp
      finally show ?thesis .
    next
      case False
      show ?thesis
      proof (cases "p \<in> set (visited st)")
        case True
        have "bfs (failures_empty ls) req st = bfs (failures_empty ls) req (st\<lparr>queue := rest\<rparr>)"
          using bfs_skip[of st p d rest "failures_empty ls" req] q True by simp
        also have "\<dots> = bfs ls req (st\<lparr>queue := rest\<rparr>)"
          by (rule "1.IH"(2)[OF Cons x[symmetric] False True])
        also have "\<dots> = bfs ls req st"
          using bfs_skip[of st p d rest ls req] q True by simp
        finally show ?thesis .
      next
        case nv: False
        have dle: "d \<le> NZBDAV_MAX_DIRECTORY_DEPTH" using False by simp
        let ?st0 = "st\<lparr>queue := rest, visited := p # visited st, listed := listed st @ [(p, d)]\<rparr>"
        show ?thesis
        proof (cases "ls p")
          case None
          have "bfs (failures_empty ls) req st =
              bfs (failures_empty ls) req (scanEntries req p d [] ?st0)"
            using bfs_list[of st p d rest "failures_empty ls" "[]" req] q dle nv
              failures_empty_None[of ls p] None by simp
          also have "\<dots> = bfs (failures_empty ls) req ?st0" by simp
          also have "\<dots> = bfs ls req ?st0"
            by (rule "1.IH"(3)[OF Cons x[symmetric] False nv None])
          also have "\<dots> = bfs ls req st"
            using bfs_fail[of st p d rest ls req] q dle nv None by simp
          finally show ?thesis .
        next
          case (Some entries)
          have "bfs (failures_empty ls) req st =
              bfs (failures_empty ls) req (scanEntries req p d entries ?st0)"
            using bfs_list[of st p d rest "failures_empty ls" entries req] q dle nv
              failures_empty_Some[of ls p entries] Some by simp
          also have "\<dots> = bfs ls req (scanEntries req p d entries ?st0)"
            by (rule "1.IH"(4)[OF Cons x[symmetric] False nv Some])
          also have "\<dots> = bfs ls req st"
            using bfs_list[of st p d rest ls entries req] q dle nv Some by simp
          finally show ?thesis .
        qed
      qed
    qed
  qed
qed

text \<open>
  C6 (bounded, terminating traversal). The traversal is a total function of the share,
  which is any function from paths to listings (finite lists of entries), so it ends
  on every tree, also on one of unbounded depth or with repeated paths. It ends with
  an empty queue after at most \<open>subtree_size ls 7 root\<close> listings; no path is listed
  twice; every listing is of a path at a depth of at most 6, which the path has below
  the root; and a failing listing leaves the traversal exactly as an empty directory
  in its place would: the same listings in the same order and the same result.
\<close>

theorem bounded_traversal:
  "queue (traversal ls cat jobName req) = [] \<and>
   length (listed (traversal ls cat jobName req)) \<le> subtree_size ls 7 (rootPath cat jobName) \<and>
   distinct (map fst (listed (traversal ls cat jobName req))) \<and>
   (\<forall>(p, d)\<in>set (listed (traversal ls cat jobName req)).
      d \<le> 6 \<and> p \<in> set (level ls (rootPath cat jobName) d)) \<and>
   traversal (failures_empty ls) cat jobName req = traversal ls cat jobName req \<and>
   findBestVideoFile (failures_empty ls) cat jobName req = findBestVideoFile ls cat jobName req"
proof -
  let ?st = "traversal ls cat jobName req"
  let ?root = "rootPath cat jobName"
  have inv: "trav_inv ls req ?root (subtree_size ls (Suc NZBDAV_MAX_DIRECTORY_DEPTH) ?root) ?st"
    and q: "queue ?st = []"
    using trav_inv_final[of ls req cat jobName] by blast+
  have vis: "visited ?st = rev (map fst (listed ?st))" and dist: "distinct (visited ?st)"
    and depth: "\<forall>(p, d)\<in>set (listed ?st). d \<le> NZBDAV_MAX_DIRECTORY_DEPTH"
    and lev: "\<forall>(p, d)\<in>set (queue ?st) \<union> set (listed ?st). p \<in> set (level ls ?root d)"
    and len: "length (listed ?st) + queue_size ls (queue ?st) \<le>
        subtree_size ls (Suc NZBDAV_MAX_DIRECTORY_DEPTH) ?root"
    using inv unfolding trav_inv_def by blast+
  have 1: "length (listed ?st) \<le> subtree_size ls 7 ?root"
    using len by (simp add: NZBDAV_MAX_DIRECTORY_DEPTH_def)
  have 2: "distinct (map fst (listed ?st))"
    using dist unfolding vis by simp
  have 3: "\<forall>(p, d)\<in>set (listed ?st). d \<le> 6 \<and> p \<in> set (level ls ?root d)"
    using depth lev by (auto simp: NZBDAV_MAX_DIRECTORY_DEPTH_def)
  have 4: "traversal (failures_empty ls) cat jobName req = ?st"
    by (simp add: traversal_def bfs_failures_empty)
  have 5: "findBestVideoFile (failures_empty ls) cat jobName req = findBestVideoFile ls cat jobName req"
    by (simp add: findBestVideoFile_def 4)
  show ?thesis using q 1 2 3 4 5 by blast
qed


lemma demo_deep_video: "isVideoFileName ''top.mkv''"
  by code_simp

lemma demo_deep_listed:
  "listed (traversal demo_deep ''Tv'' ''Deep'' None) =
     [(''/content/Tv/Deep'', 0), (''/content/Tv/Deep/a'', 1), (''/content/Tv/Deep/broken'', 1),
      (''/content/Tv/Deep/a/a'', 2), (''/content/Tv/Deep/a/a/a'', 3),
      (''/content/Tv/Deep/a/a/a/a'', 4), (''/content/Tv/Deep/a/a/a/a/a'', 5),
      (''/content/Tv/Deep/a/a/a/a/a/a'', 6)]"
  by (simp add: locate_eval demo_deep_def demo_deep_video fileMatchesEpisode_def)

lemma demo_deep_best:
  "findBestVideoFile demo_deep ''Tv'' ''Deep'' None =
     Some \<lparr>cand_name = ''top.mkv'', cand_size = 10, matchesEpisode = True,
       absolutePath = ''/content/Tv/Deep/top.mkv'', viewPath = ''content/Tv/Deep/top.mkv''\<rparr>"
  by (simp add: findBestVideoFile_def locate_eval demo_deep_def demo_deep_video fileMatchesEpisode_def)

theorem bounded_traversal_witness:
  "listed (traversal demo_deep ''Tv'' ''Deep'' None) =
     [(''/content/Tv/Deep'', 0), (''/content/Tv/Deep/a'', 1), (''/content/Tv/Deep/broken'', 1),
      (''/content/Tv/Deep/a/a'', 2), (''/content/Tv/Deep/a/a/a'', 3),
      (''/content/Tv/Deep/a/a/a/a'', 4), (''/content/Tv/Deep/a/a/a/a/a'', 5),
      (''/content/Tv/Deep/a/a/a/a/a/a'', 6)] \<and>
   findBestVideoFile demo_deep ''Tv'' ''Deep'' None =
     Some \<lparr>cand_name = ''top.mkv'', cand_size = 10, matchesEpisode = True,
       absolutePath = ''/content/Tv/Deep/top.mkv'', viewPath = ''content/Tv/Deep/top.mkv''\<rparr> \<and>
   demo_deep ''/content/Tv/Deep/broken'' = None \<and>
   queue (traversal demo_deep ''Tv'' ''Deep'' None) = [] \<and>
   distinct (map fst (listed (traversal demo_deep ''Tv'' ''Deep'' None))) \<and>
   length (listed (traversal demo_deep ''Tv'' ''Deep'' None)) \<le>
     subtree_size demo_deep 7 (rootPath ''Tv'' ''Deep'') \<and>
   ''/content/Tv/Deep/a/a/a/a/a/a'' \<in> set (level demo_deep (rootPath ''Tv'' ''Deep'') 6) \<and>
   findBestVideoFile (failures_empty demo_deep) ''Tv'' ''Deep'' None =
     findBestVideoFile demo_deep ''Tv'' ''Deep'' None"
proof -
  note T = bounded_traversal[of demo_deep "''Tv''" "''Deep''" None]
  have m: "(''/content/Tv/Deep/a/a/a/a/a/a'', 6) \<in> set (listed (traversal demo_deep ''Tv'' ''Deep'' None))"
    by (simp add: demo_deep_listed)
  have l: "''/content/Tv/Deep/a/a/a/a/a/a'' \<in> set (level demo_deep (rootPath ''Tv'' ''Deep'') 6)"
    using T m by blast
  have b: "demo_deep ''/content/Tv/Deep/broken'' = None" by (simp add: demo_deep_def)
  show ?thesis using T l b demo_deep_listed demo_deep_best by blast
qed

section \<open>Properties of the file-serving path\<close>

lemma dec_digits: "list_all isDigit (dec n)"
proof (induction n rule: dec.induct)
  case (1 n)
  have d: "isDigit (''0123456789'' ! k)" if "k < 10" for k
  proof -
    have "k \<in> {0,1,2,3,4,5,6,7,8,9}" using that by auto
    then show ?thesis by (auto simp: isDigit_def)
  qed
  show ?case
  proof (cases "n < 10")
    case True
    then show ?thesis by (subst dec.simps) (simp add: d)
  next
    case False
    then show ?thesis using 1 by (subst dec.simps) (simp add: d)
  qed
qed

lemma dec_nonempty: "dec n \<noteq> []"
  by (subst dec.simps) simp

lemma headerChar_digit: "isDigit c \<Longrightarrow> headerChar c"
  by (auto simp: isDigit_def headerChar_def)

lemma headerChar_literals:
  "headerChar CHR ''-''" "headerChar CHR ''.''" "headerChar CHR ''e''" "headerChar CHR ''+''"
  "headerChar CHR ''0''" "headerChar CHR ''/''" "headerChar CHR '' ''" "headerChar CHR ''*''"
  by (simp_all add: headerChar_def)

lemma validHeaderValue_append:
  "validHeaderValue (a @ b) \<longleftrightarrow> validHeaderValue a \<and> validHeaderValue b"
  by (simp add: validHeaderValue_def)

lemma validHeaderValue_Cons:
  "validHeaderValue (c # b) \<longleftrightarrow> headerChar c \<and> validHeaderValue b"
  by (simp add: validHeaderValue_def)

lemma validHeaderValue_Nil: "validHeaderValue []"
  by (simp add: validHeaderValue_def)

lemmas valid_list = validHeaderValue_append validHeaderValue_Cons validHeaderValue_Nil

lemma valid_dec: "validHeaderValue (dec n)"
  using dec_digits[of n] by (auto simp: validHeaderValue_def list_all_iff headerChar_digit)

lemma valid_natToString: "validHeaderValue (natToString x)"
proof -
  have hd: "headerChar (hd (dec s))" for s
    using valid_dec[of s] dec_nonempty[of s] by (cases "dec s") (simp_all add: valid_list)
  have tl: "validHeaderValue (tl (dec s))" for s
    using valid_dec[of s] dec_nonempty[of s] by (cases "dec s") (simp_all add: valid_list)
  have z: "validHeaderValue (replicate j (CHR ''0''))" for j
    by (induction j) (simp_all add: headerChar_literals valid_list)
  show ?thesis
    unfolding natToString_def
    by (auto simp: valid_dec hd tl z headerChar_literals valid_list split: prod.splits)
qed

lemma valid_numberToString: "validHeaderValue (numberToString i)"
  by (simp add: numberToString_def valid_natToString headerChar_literals valid_list)

lemma valid_contentRange: "validHeaderValue (contentRange a b c)"
  by (simp add: contentRange_def valid_numberToString headerChar_literals headerChar_def valid_list)

lemma valid_names:
  "validHeaderName ''Accept-Ranges''" "validHeaderName ''Last-Modified''"
  "validHeaderName ''Content-Type''" "validHeaderName ''Content-Length''"
  "validHeaderName ''Content-Range''" "validHeaderName ''X-NZBDav-Failure''"
  by (simp_all add: validHeaderName_def tokenChar_def)

lemma valid_values:
  "validHeaderValue ''bytes''" "validHeaderValue ''application/octet-stream''"
  "validHeaderValue (''bytes */'' @ numberToString n)"
  by (simp_all add: headerChar_def valid_numberToString valid_list)

lemma getHeader_storeHeader_same [simp]: "getHeader n (storeHeader n v res) = Some v"
proof -
  have "map_of (map (\<lambda>(k, v). (toLowerCase k, v))
          (filter (\<lambda>(k, _). toLowerCase k \<noteq> toLowerCase n) hs)) (toLowerCase n) = None" for hs :: "(string \<times> string) list"
    by (induction hs) auto
  then show ?thesis
    by (simp add: getHeader_def storeHeader_def map_add_def)
qed

lemma getHeader_storeHeader_other:
  "toLowerCase n \<noteq> toLowerCase m \<Longrightarrow> getHeader n (storeHeader m v res) = getHeader n res"
proof -
  assume ne: "toLowerCase n \<noteq> toLowerCase m"
  have "map_of (map (\<lambda>(k, v). (toLowerCase k, v))
          (filter (\<lambda>(k, _). toLowerCase k \<noteq> toLowerCase m) hs)) (toLowerCase n) =
        map_of (map (\<lambda>(k, v). (toLowerCase k, v)) hs) (toLowerCase n)" for hs :: "(string \<times> string) list"
    using ne by (induction hs) auto
  then show ?thesis
    using ne by (simp add: getHeader_def storeHeader_def map_add_def split: option.splits)
qed

lemma storeHeader_fields [simp]:
  "statusCode (storeHeader n v res) = statusCode res"
  "body (storeHeader n v res) = body res"
  "headersSent (storeHeader n v res) = headersSent res"
  "finished (storeHeader n v res) = finished res"
  by (simp_all add: storeHeader_def)

lemma status_fields [simp]:
  "statusCode (status c res) = c"
  "body (status c res) = body res"
  "headersSent (status c res) = headersSent res"
  "finished (status c res) = finished res"
  "getHeader n (status c res) = getHeader n res"
  by (simp_all add: status_def getHeader_def)

lemma end_response_fields [simp]:
  "statusCode (end_response res) = statusCode res"
  "body (end_response res) = body res"
  "headersSent (end_response res)"
  "finished (end_response res)"
  "getHeader n (end_response res) = getHeader n res"
  by (simp_all add: end_response_def getHeader_def)

lemma getHeader_update [simp]:
  "getHeader n (res\<lparr>body := b\<rparr>) = getHeader n res"
  "getHeader n (res\<lparr>headersSent := hs\<rparr>) = getHeader n res"
  "getHeader n (res\<lparr>finished := fin\<rparr>) = getHeader n res"
  by (simp_all add: getHeader_def)

lemma header_names:
  "toLowerCase ''Content-Range'' \<noteq> toLowerCase ''Content-Length''"
  "toLowerCase ''Content-Length'' \<noteq> toLowerCase ''Content-Range''"
  "toLowerCase ''Content-Length'' \<noteq> toLowerCase ''Content-Type''"
  "toLowerCase ''Content-Range'' \<noteq> toLowerCase ''Content-Type''"
  "toLowerCase ''X-NZBDav-Failure'' \<noteq> toLowerCase ''Content-Type''"
  "toLowerCase ''X-NZBDav-Failure'' \<noteq> toLowerCase ''Content-Length''"
  "toLowerCase ''X-NZBDav-Failure'' \<noteq> toLowerCase ''Content-Range''"
  "toLowerCase ''X-NZBDav-Failure'' \<noteq> toLowerCase ''Last-Modified''"
  "toLowerCase ''X-NZBDav-Failure'' \<noteq> toLowerCase ''Accept-Ranges''"
  by code_simp+

lemma setHeader_ok:
  assumes "\<not> headersSent res" and "validHeaderName n" and "validHeaderValue v"
  shows "setHeader n v res = Inr (storeHeader n v res)"
  using assms by (simp add: setHeader_def)

lemma setHeader_cases:
  "setHeader n v res = Inr (storeHeader n v res) \<or> (\<exists>e. setHeader n v res = Inl e)"
  by (simp add: setHeader_def)

lemma setHeaders_ok:
  assumes "\<not> headersSent res" and "list_all (\<lambda>(n, v). validHeaderName n \<and> validHeaderValue v) hs"
  shows "setHeaders hs res = (None, fold (\<lambda>(n, v). storeHeader n v) hs res)"
  using assms
proof (induction hs arbitrary: res)
  case Nil
  then show ?case by simp
next
  case (Cons h hs)
  obtain n v where h: "h = (n, v)" by (cases h)
  have ok: "setHeader n v res = Inr (storeHeader n v res)"
    using Cons.prems h by (simp add: setHeader_ok)
  have "setHeaders hs (storeHeader n v res) =
      (None, fold (\<lambda>(n, v). storeHeader n v) hs (storeHeader n v res))"
    using Cons.prems by (intro Cons.IH) simp_all
  then show ?case by (simp add: h ok)
qed

lemma setHeaders_fields [simp]:
  "statusCode (snd (setHeaders hs res)) = statusCode res"
  "body (snd (setHeaders hs res)) = body res"
  "headersSent (snd (setHeaders hs res)) = headersSent res"
  "finished (snd (setHeaders hs res)) = finished res"
proof -
  have "statusCode (snd (setHeaders hs res)) = statusCode res \<and>
        body (snd (setHeaders hs res)) = body res \<and>
        headersSent (snd (setHeaders hs res)) = headersSent res \<and>
        finished (snd (setHeaders hs res)) = finished res"
  proof (induction hs arbitrary: res)
    case Nil
    then show ?case by simp
  next
    case (Cons h hs)
    obtain n v where h: "h = (n, v)" by (cases h)
    show ?case
      using setHeader_cases[of n v res] Cons.IH[of "storeHeader n v res"]
      by (auto simp: h)
  qed
  then show "statusCode (snd (setHeaders hs res)) = statusCode res"
    "body (snd (setHeaders hs res)) = body res"
    "headersSent (snd (setHeaders hs res)) = headersSent res"
    "finished (snd (setHeaders hs res)) = finished res"
    by simp_all
qed

lemma setHeaders_other:
  assumes "\<forall>(m, v) \<in> set hs. toLowerCase n \<noteq> toLowerCase m"
  shows "getHeader n (snd (setHeaders hs res)) = getHeader n res"
  using assms
proof (induction hs arbitrary: res)
  case Nil
  then show ?case by simp
next
  case (Cons h hs)
  obtain m v where h: "h = (m, v)" by (cases h)
  have ne: "toLowerCase n \<noteq> toLowerCase m" using Cons.prems h by simp
  have ih: "getHeader n (snd (setHeaders hs (storeHeader m v res))) = getHeader n (storeHeader m v res)"
    using Cons.prems by (intro Cons.IH) simp
  show ?case
    using setHeader_cases[of m v res] ih
    by (auto simp: h getHeader_storeHeader_other[OF ne])
qed

lemma rangeSpec_shape:
  assumes "list_all isDigit a" and "list_all isDigit b"
  shows "rangeSpec (''bytes='' @ a @ ''-'' @ b) = Some (a, b)"
proof -
  have nd: "\<not> isDigit CHR ''-''" by (simp add: isDigit_def)
  have "takeWhile isDigit (a @ CHR ''-'' # b) = a"
    using assms(1) nd by (simp add: takeWhile_append2 list_all_iff)
  then show ?thesis
    using assms(2) by (simp add: rangeSpec_def)
qed

lemma rangeSpec_empty: "rangeSpec [] = None"
  by (simp add: rangeSpec_def)

lemma parseInt_exact: "digitsValue ds < 2 ^ 53 \<Longrightarrow> parseInt ds = Some (digitsValue ds)"
  by (simp add: parseInt_def toDouble_def)

lemma bitLength_lower: "0 < n \<Longrightarrow> 2 ^ (bitLength n - 1) \<le> n"
proof (induction n rule: bitLength.induct)
  case (1 n)
  show ?case
  proof (cases "n div 2 = 0")
    case True
    then have "bitLength (n div 2) = 0" by (simp add: bitLength.simps)
    then have "bitLength n = 1" using 1(2) by (subst bitLength.simps) simp
    then show ?thesis using 1(2) by simp
  next
    case False
    then have ih: "2 ^ (bitLength (n div 2) - 1) \<le> n div 2" using 1 by simp
    have pos: "0 < bitLength (n div 2)" using False by (subst bitLength.simps) simp
    have bl: "bitLength n = Suc (bitLength (n div 2))" using 1(2) by (subst bitLength.simps) simp
    have "2 ^ (bitLength n - 1) = 2 * 2 ^ (bitLength (n div 2) - 1)"
      using pos by (cases "bitLength (n div 2)") (simp_all add: bl)
    also have "\<dots> \<le> 2 * (n div 2)" using ih by simp
    also have "\<dots> \<le> n" by simp
    finally show ?thesis .
  qed
qed

lemma bitLength_large: "2 ^ k \<le> n \<Longrightarrow> k < bitLength n"
proof (induction n arbitrary: k rule: bitLength.induct)
  case (1 n)
  have pos: "n \<noteq> 0" using 1(2) by (cases "n = 0") simp_all
  show ?case
  proof (cases k)
    case 0
    then show ?thesis using pos by (subst bitLength.simps) simp
  next
    case (Suc j)
    then have "2 ^ j \<le> n div 2" using 1(2) by simp
    then have "j < bitLength (n div 2)" using 1(1) pos by simp
    then show ?thesis using pos Suc by (subst bitLength.simps) simp
  qed
qed

lemma toDouble_large:
  assumes "2 ^ 53 \<le> n" and "toDouble n = Some m"
  shows "2 ^ 53 \<le> m"
proof -
  let ?e = "bitLength n - 53"
  let ?q = "n div 2 ^ ?e"
  have bl: "53 < bitLength n" using assms(1) by (rule bitLength_large)
  have pos: "0 < n" using assms(1) by (cases "n = 0") simp_all
  have low: "2 ^ (bitLength n - 1) \<le> n" by (rule bitLength_lower[OF pos])
  have idx: "bitLength n - 1 = 52 + ?e" using bl by simp
  have split: "(2::nat) ^ (bitLength n - 1) = 2 ^ 52 * 2 ^ ?e"
    unfolding idx by (rule power_add)
  have "2 ^ 52 * 2 ^ ?e \<le> n" using low split by simp
  then have q: "2 ^ 52 \<le> ?q"
    by (simp add: less_eq_div_iff_mult_less_eq)
  have e1: "1 \<le> ?e" using bl by simp
  have "(2::nat) ^ 53 = 2 ^ 52 * 2 ^ 1" by simp
  also have "\<dots> \<le> 2 ^ 52 * 2 ^ ?e"
    using e1 by (intro mult_le_mono2 power_increasing) simp_all
  also have "\<dots> \<le> ?q * 2 ^ ?e" using q by (intro mult_le_mono1)
  finally have base: "2 ^ 53 \<le> ?q * 2 ^ ?e" .
  have "m = ?q * 2 ^ ?e \<or> m = (?q + 1) * 2 ^ ?e"
    using assms by (auto simp: toDouble_def Let_def split: if_splits)
  then show ?thesis
  proof
    assume "m = ?q * 2 ^ ?e"
    then show ?thesis using base by simp
  next
    assume m: "m = (?q + 1) * 2 ^ ?e"
    have "?q * 2 ^ ?e \<le> (?q + 1) * 2 ^ ?e" by (intro mult_le_mono1) simp
    then show ?thesis using base m by simp
  qed
qed

lemma requestedStart_above:
  assumes "a \<noteq> []" and "parseInt a \<noteq> None" and "S \<le> digitsValue a" and "S \<le> 2 ^ 53"
  shows "int S \<le> requestedStart a"
proof -
  obtain m where m: "parseInt a = Some m" using assms(2) by blast
  have st: "requestedStart a = int m" using assms(1) m by (simp add: requestedStart_def)
  show ?thesis
  proof (cases "digitsValue a < 2 ^ 53")
    case True
    then have "m = digitsValue a" using m by (simp add: parseInt_def toDouble_def)
    then show ?thesis using st assms(3) by simp
  next
    case False
    then have "2 ^ 53 \<le> m" using m toDouble_large[of "digitsValue a" m] by (simp add: parseInt_def)
    then show ?thesis using st assms(4) by simp
  qed
qed

lemma requestedStart_nonneg: "0 \<le> requestedStart a"
  by (simp add: requestedStart_def split: option.splits)

lemma clampEnd_bounds:
  assumes "start < totalSize"
  shows "start \<le> clampEnd totalSize start e \<and> clampEnd totalSize start e < totalSize"
  using assms by (auto simp: clampEnd_def)

lemma stream_prefix:
  assumes "\<not> headersSent res" and "validHeaderValue (file_mtime f)"
  shows "setHeaders [(''Accept-Ranges'', ''bytes''), (''Last-Modified'', file_mtime f),
                     (''Content-Type'', ''application/octet-stream'')] res =
         (None, storeHeader ''Content-Type'' ''application/octet-stream''
                  (storeHeader ''Last-Modified'' (file_mtime f) (storeHeader ''Accept-Ranges'' ''bytes'' res)))"
  using assms by (simp add: setHeader_ok valid_names valid_values)

lemma stream_unsatisfiable:
  assumes "file_isFile f" and "\<not> headersSent res" and "validHeaderValue (file_mtime f)"
    and "header req ''range'' = Some h" and "rangeSpec h = Some (a, b)"
    and "requestedStart a \<ge> int (length (file_bytes f))"
  shows "streamFileResponse req res (Some f) False how =
     (Inr True,
      end_response (storeHeader ''Content-Range'' (''bytes */'' @ numberToString (int (length (file_bytes f))))
        (status 416 (storeHeader ''Content-Type'' ''application/octet-stream''
           (storeHeader ''Last-Modified'' (file_mtime f) (storeHeader ''Accept-Ranges'' ''bytes'' res))))))"
proof -
  have "h \<noteq> []" using assms(5) by (auto simp: rangeSpec_empty)
  then show ?thesis
    using assms
    by (simp add: streamFileResponse_def Let_def stream_prefix thenDo_def setHeader_ok
        valid_names valid_values valid_numberToString valid_list headerChar_def)
qed

lemma stream_partial:
  assumes "file_isFile f" and "\<not> headersSent res" and "validHeaderValue (file_mtime f)"
    and "header req ''range'' = Some h" and "rangeSpec h = Some (a, b)"
    and "requestedStart a < int (length (file_bytes f))"
  shows "streamFileResponse req res (Some f) False Completed =
     (Inr True,
      (storeHeader ''Content-Length''
         (numberToString (clampEnd (int (length (file_bytes f))) (requestedStart a) (requestedEnd (int (length (file_bytes f))) b) - requestedStart a + 1))
         (storeHeader ''Content-Range''
            (contentRange (requestedStart a) (clampEnd (int (length (file_bytes f))) (requestedStart a) (requestedEnd (int (length (file_bytes f))) b))
               (int (length (file_bytes f))))
            (status 206 (storeHeader ''Content-Type'' ''application/octet-stream''
               (storeHeader ''Last-Modified'' (file_mtime f) (storeHeader ''Accept-Ranges'' ''bytes'' res))))))
        \<lparr>body := Bytes (take (nat (clampEnd (int (length (file_bytes f))) (requestedStart a) (requestedEnd (int (length (file_bytes f))) b) - requestedStart a + 1))
                          (drop (nat (requestedStart a)) (file_bytes f))),
         headersSent := True, finished := True\<rparr>)"
proof -
  let ?S = "int (length (file_bytes f))"
  let ?start = "requestedStart a"
  let ?end = "clampEnd ?S ?start (requestedEnd ?S b)"
  have ne: "h \<noteq> []" using assms(5) by (auto simp: rangeSpec_empty)
  have b: "?start \<le> ?end \<and> ?end < ?S" by (rule clampEnd_bounds[OF assms(6)])
  have s0: "0 \<le> ?start" by (rule requestedStart_nonneg)
  have rd: "createReadStream f ?start ?end =
      Inr (take (nat (?end - ?start + 1)) (drop (nat ?start) (file_bytes f)))"
    using b s0 by (simp add: createReadStream_def)
  show ?thesis
    using assms(1,2,3,4,5,6) ne
    by (simp add: streamFileResponse_def Let_def rd pipelineAsync_def piped_def stream_prefix
        thenDo_def setHeader_ok valid_names valid_values valid_numberToString valid_contentRange)
qed

lemma stream_full:
  assumes "file_isFile f" and "\<not> headersSent res" and "validHeaderValue (file_mtime f)"
    and "header req ''range'' = None \<or> header req ''range'' = Some [] \<or>
         (\<exists>h. header req ''range'' = Some h \<and> rangeSpec h = None)"
    and "file_bytes f \<noteq> []"
  shows "streamFileResponse req res (Some f) False Completed =
     (Inr True,
      (storeHeader ''Content-Length'' (numberToString (int (length (file_bytes f))))
         (status 200 (storeHeader ''Content-Type'' ''application/octet-stream''
            (storeHeader ''Last-Modified'' (file_mtime f) (storeHeader ''Accept-Ranges'' ''bytes'' res)))))
        \<lparr>body := Bytes (file_bytes f), headersSent := True, finished := True\<rparr>)"
proof -
  have spec: "(case header req ''range'' of None \<Rightarrow> None
                | Some h \<Rightarrow> if h = [] then None else rangeSpec h) = None"
    using assms(4) by (auto split: option.splits)
  have rd: "createReadStream f 0 (int (length (file_bytes f)) - 1) = Inr (file_bytes f)"
    using assms(5) by (cases "file_bytes f") (simp_all add: createReadStream_def)
  show ?thesis
    using assms(1,2,3)
    unfolding streamFileResponse_def Let_def spec
    by (simp add: rd pipelineAsync_def piped_def stream_prefix thenDo_def setHeader_ok
        valid_names valid_values valid_numberToString)
qed

lemma stream_head:
  assumes "file_isFile f" and "\<not> headersSent res" and "validHeaderValue (file_mtime f)"
  shows "streamFileResponse req res (Some f) True how =
     (Inr True,
      end_response (status 200 (storeHeader ''Content-Length'' (numberToString (int (length (file_bytes f))))
        (storeHeader ''Content-Type'' ''application/octet-stream''
           (storeHeader ''Last-Modified'' (file_mtime f) (storeHeader ''Accept-Ranges'' ''bytes'' res))))))"
  using assms
  by (simp add: streamFileResponse_def Let_def stream_prefix thenDo_def setHeader_ok
      valid_names valid_values valid_numberToString)

lemma digitsValue_zeros:
  "foldl (\<lambda>n c. 10 * n + digitValue c) k (replicate j (CHR ''0'')) = k * 10 ^ j"
  by (induction j arbitrary: k) (simp_all add: digitValue_def)

lemma demo_huge_value: "digitsValue demo_huge = 10 ^ 309"
  by (simp add: digitsValue_def demo_huge_def digitsValue_zeros) (simp add: digitValue_def)

lemma demo_huge_digits: "list_all isDigit demo_huge"
  by (simp add: demo_huge_def isDigit_def list_all_iff)

lemma demo_huge_infinite: "parseInt demo_huge = None"
  unfolding parseInt_def demo_huge_value
  by (simp add: toDouble_def Let_def bitLength.simps)

lemma demo_huge_start: "requestedStart demo_huge = 0"
  by (simp add: requestedStart_def demo_huge_infinite)

lemma demo_range_values:
  "rangeSpec ''bytes=500-'' = Some (''500'', [])"
  "rangeSpec ''bytes=2000-3000'' = Some (''2000'', ''3000'')"
  "rangeSpec ''bytes=abc'' = None"
  "requestedStart ''500'' = 500"
  "requestedStart ''2000'' = 2000"
  "clampEnd 1000 500 (requestedEnd 1000 []) = 999"
  "contentRange 500 999 1000 = ''bytes 500-999/1000''"
  "numberToString 500 = ''500''"
  "numberToString 1000 = ''1000''"
  "clampEnd 1000 0 (requestedEnd 1000 []) = 999"
  "contentRange 0 999 1000 = ''bytes 0-999/1000''"
  by (simp_all add: rangeSpec_def isDigit_def requestedStart_def requestedEnd_def parseInt_def
      digitsValue_def digitValue_def toDouble_def clampEnd_def contentRange_def numberToString_def
      natToString_def dec.simps)

lemma demo_file_facts:
  "file_isFile demo_file" "int (length (file_bytes demo_file)) = 1000" "file_bytes demo_file \<noteq> []"
  "validHeaderValue (file_mtime demo_file)"
  by (simp_all add: demo_file_def validHeaderValue_def headerChar_def)

lemma fresh_response_facts: "\<not> headersSent fresh_response" "body fresh_response = NoBody"
  by (simp_all add: fresh_response_def)

text \<open>
  An empty file without a range is asked for its bytes from 0 to -1, which
  \<^verbatim>\<open>createReadStream\<close> refuses: the function throws and nothing is sent.
\<close>

lemma empty_file_throws:
  assumes "file_isFile f" and "\<not> headersSent res" and "validHeaderValue (file_mtime f)"
    and "header req ''range'' = None" and "file_bytes f = []"
  shows "fst (streamFileResponse req res (Some f) False how) = Inl (Error ''ERR_OUT_OF_RANGE'') \<and>
         \<not> headersSent (snd (streamFileResponse req res (Some f) False how))"
  using assms
  by (simp add: streamFileResponse_def Let_def thenDo_def createReadStream_def setHeader_ok
      valid_names valid_values)

text \<open>
  C3 as stated fails for a start that is too large to be a finite number: the header
  \<^verbatim>\<open>bytes=1000...0-\<close> with a start of 310 digits, far beyond the 1000 bytes of the file,
  is answered with 206 and the whole file, not with 416. \<^verbatim>\<open>Number.parseInt\<close> gives
  \<^verbatim>\<open>Infinity\<close> for it, and the test \<^verbatim>\<open>Number.isFinite(parsedStart)\<close> leaves \<^verbatim>\<open>start\<close>
  at 0.
\<close>

theorem range_infinite_start_counterexample:
  "list_all isDigit demo_huge \<and>
   rangeSpec (''bytes='' @ demo_huge @ ''-'') = Some (demo_huge, []) \<and>
   int (length (file_bytes demo_file)) \<le> int (digitsValue demo_huge) \<and>
   statusCode (snd (streamFileResponse (demo_request ''GET'' (Some (''bytes='' @ demo_huge @ ''-'')))
      fresh_response (Some demo_file) False Completed)) = 206 \<and>
   statusCode (snd (streamFileResponse (demo_request ''GET'' (Some (''bytes='' @ demo_huge @ ''-'')))
      fresh_response (Some demo_file) False Completed)) \<noteq> 416 \<and>
   getHeader ''Content-Range'' (snd (streamFileResponse (demo_request ''GET'' (Some (''bytes='' @ demo_huge @ ''-'')))
      fresh_response (Some demo_file) False Completed)) = Some ''bytes 0-999/1000'' \<and>
   body (snd (streamFileResponse (demo_request ''GET'' (Some (''bytes='' @ demo_huge @ ''-'')))
      fresh_response (Some demo_file) False Completed)) = Bytes (file_bytes demo_file)"
proof -
  let ?h = "''bytes='' @ demo_huge @ ''-''"
  let ?req = "demo_request ''GET'' (Some ?h)"
  have sp: "rangeSpec ?h = Some (demo_huge, [])"
    using rangeSpec_shape[OF demo_huge_digits, of "[]"] by simp
  have hr: "header ?req ''range'' = Some ?h"
    by (simp add: header_def demo_request_def)
  have big: "int (length (file_bytes demo_file)) \<le> int (digitsValue demo_huge)"
    by (simp add: demo_file_facts(2) demo_huge_value)
  have lt: "requestedStart demo_huge < int (length (file_bytes demo_file))"
    by (simp add: demo_huge_start demo_file_facts(2))
  have eq: "streamFileResponse ?req fresh_response (Some demo_file) False Completed =
     (Inr True,
      (storeHeader ''Content-Length'' (numberToString (999 - 0 + 1))
         (storeHeader ''Content-Range'' (contentRange 0 999 1000)
            (status 206 (storeHeader ''Content-Type'' ''application/octet-stream''
               (storeHeader ''Last-Modified'' (file_mtime demo_file)
                  (storeHeader ''Accept-Ranges'' ''bytes'' fresh_response))))))
        \<lparr>body := Bytes (take (nat (999 - 0 + 1)) (drop (nat 0) (file_bytes demo_file))),
         headersSent := True, finished := True\<rparr>)"
    using stream_partial[OF demo_file_facts(1) fresh_response_facts(1) demo_file_facts(4) hr sp lt]
    by (simp add: demo_huge_start demo_file_facts(2) demo_range_values(10))
  have all: "take (nat (999 - 0 + 1)) (drop (nat 0) (file_bytes demo_file)) = file_bytes demo_file"
    by (simp add: demo_file_def)
  show ?thesis
    unfolding eq all
    using demo_huge_digits sp big
    by (simp add: getHeader_storeHeader_other header_names demo_range_values(11))
qed

text \<open>
  C3, amended (range semantics of the file-serving path). For a regular file of \<open>S\<close>
  bytes, a response whose headers are not yet sent and a request that is not answered
  as HEAD: a header \<^verbatim>\<open>bytes=<digits>-<digits>\<close> has the shape tested for. A bound that is
  written and below \<open>2^53\<close> is read as written; an omitted bound, and one so large that
  \<^verbatim>\<open>parseInt\<close> gives \<^verbatim>\<open>Infinity\<close>, is read as 0 for the start and as \<open>S - 1\<close> for the
  end. With a header of that shape and a start, so read, of at least \<open>S\<close> the answer is
  416 with \<^verbatim>\<open>Content-Range: bytes */S\<close> and no body. With a start below \<open>S\<close> the end is
  the one read when it lies between start and \<open>S - 1\<close> and \<open>S - 1\<close> otherwise, and the
  answer is 206 with \<^verbatim>\<open>Content-Range: bytes start-end/S\<close>,
  \<^verbatim>\<open>Content-Length: end - start + 1\<close> and as body exactly the bytes from start to end.
  Without a header of that shape a non-empty file is answered with 200,
  \<^verbatim>\<open>Content-Length: S\<close> and all its bytes. A start that is written as at least \<open>S\<close> and
  parses to a finite number is read as at least \<open>S\<close>, for \<open>S\<close> up to \<open>2^53\<close>; and the
  numbers in the headers are printed as their decimal digits below \<open>2^53\<close>.
\<close>

theorem range_semantics:
  assumes "file_isFile f" and "\<not> headersSent res" and "body res = NoBody"
    and "validHeaderValue (file_mtime f)"
  shows "(\<forall>a b. list_all isDigit a \<and> list_all isDigit b \<longrightarrow>
            rangeSpec (''bytes='' @ a @ ''-'' @ b) = Some (a, b)) \<and>
         (\<forall>a S. (a \<noteq> [] \<and> digitsValue a < 2 ^ 53 \<longrightarrow>
                   requestedStart a = int (digitsValue a) \<and> requestedEnd S a = int (digitsValue a)) \<and>
                (a = [] \<or> parseInt a = None \<longrightarrow> requestedStart a = 0 \<and> requestedEnd S a = S - 1)) \<and>
         (\<forall>h a b how. header req ''range'' = Some h \<and> rangeSpec h = Some (a, b) \<and>
              int (length (file_bytes f)) \<le> requestedStart a \<longrightarrow>
            fst (streamFileResponse req res (Some f) False how) = Inr True \<and>
            statusCode (snd (streamFileResponse req res (Some f) False how)) = 416 \<and>
            getHeader ''Content-Range'' (snd (streamFileResponse req res (Some f) False how)) =
              Some (''bytes */'' @ numberToString (int (length (file_bytes f)))) \<and>
            body (snd (streamFileResponse req res (Some f) False how)) = NoBody \<and>
            finished (snd (streamFileResponse req res (Some f) False how))) \<and>
         (\<forall>h a b start end. header req ''range'' = Some h \<and> rangeSpec h = Some (a, b) \<and>
              start = requestedStart a \<and> start < int (length (file_bytes f)) \<and>
              end = clampEnd (int (length (file_bytes f))) start (requestedEnd (int (length (file_bytes f))) b) \<longrightarrow>
            (int (length (file_bytes f)) \<le> requestedEnd (int (length (file_bytes f))) b \<or>
             requestedEnd (int (length (file_bytes f))) b < start \<longrightarrow> end = int (length (file_bytes f)) - 1) \<and>
            (start \<le> requestedEnd (int (length (file_bytes f))) b \<and>
             requestedEnd (int (length (file_bytes f))) b < int (length (file_bytes f)) \<longrightarrow>
               end = requestedEnd (int (length (file_bytes f))) b) \<and>
            0 \<le> start \<and> start \<le> end \<and> end < int (length (file_bytes f)) \<and>
            fst (streamFileResponse req res (Some f) False Completed) = Inr True \<and>
            statusCode (snd (streamFileResponse req res (Some f) False Completed)) = 206 \<and>
            getHeader ''Content-Range'' (snd (streamFileResponse req res (Some f) False Completed)) =
              Some (contentRange start end (int (length (file_bytes f)))) \<and>
            getHeader ''Content-Length'' (snd (streamFileResponse req res (Some f) False Completed)) =
              Some (numberToString (end - start + 1)) \<and>
            body (snd (streamFileResponse req res (Some f) False Completed)) =
              Bytes (take (nat (end - start + 1)) (drop (nat start) (file_bytes f))) \<and>
            length (take (nat (end - start + 1)) (drop (nat start) (file_bytes f))) = nat (end - start + 1)) \<and>
         ((header req ''range'' = None \<or> header req ''range'' = Some [] \<or>
           (\<exists>h. header req ''range'' = Some h \<and> rangeSpec h = None)) \<and> file_bytes f \<noteq> [] \<longrightarrow>
            fst (streamFileResponse req res (Some f) False Completed) = Inr True \<and>
            statusCode (snd (streamFileResponse req res (Some f) False Completed)) = 200 \<and>
            getHeader ''Content-Length'' (snd (streamFileResponse req res (Some f) False Completed)) =
              Some (numberToString (int (length (file_bytes f)))) \<and>
            body (snd (streamFileResponse req res (Some f) False Completed)) = Bytes (file_bytes f)) \<and>
         (\<forall>a. a \<noteq> [] \<and> parseInt a \<noteq> None \<and> length (file_bytes f) \<le> digitsValue a \<and>
              length (file_bytes f) \<le> 2 ^ 53 \<longrightarrow>
            int (length (file_bytes f)) \<le> requestedStart a) \<and>
         (\<forall>n. n < 2 ^ 53 \<longrightarrow> numberToString (int n) = dec n)"
proof -
  let ?S = "int (length (file_bytes f))"
  have 6: "\<forall>n. n < 2 ^ 53 \<longrightarrow> numberToString (int n) = dec n"
    by (simp add: numberToString_def natToString_def)
  have 5: "\<forall>a. a \<noteq> [] \<and> parseInt a \<noteq> None \<and> length (file_bytes f) \<le> digitsValue a \<and>
              length (file_bytes f) \<le> 2 ^ 53 \<longrightarrow>
            int (length (file_bytes f)) \<le> requestedStart a"
    using requestedStart_above by blast
  have 1: "\<forall>a b. list_all isDigit a \<and> list_all isDigit b \<longrightarrow>
            rangeSpec (''bytes='' @ a @ ''-'' @ b) = Some (a, b)"
    using rangeSpec_shape by blast
  have 0: "\<forall>a S. (a \<noteq> [] \<and> digitsValue a < 2 ^ 53 \<longrightarrow>
                   requestedStart a = int (digitsValue a) \<and> requestedEnd S a = int (digitsValue a)) \<and>
                (a = [] \<or> parseInt a = None \<longrightarrow> requestedStart a = 0 \<and> requestedEnd S a = S - 1)"
    by (auto simp: requestedStart_def requestedEnd_def parseInt_exact)
  have 2: "\<forall>h a b how. header req ''range'' = Some h \<and> rangeSpec h = Some (a, b) \<and>
              ?S \<le> requestedStart a \<longrightarrow>
            fst (streamFileResponse req res (Some f) False how) = Inr True \<and>
            statusCode (snd (streamFileResponse req res (Some f) False how)) = 416 \<and>
            getHeader ''Content-Range'' (snd (streamFileResponse req res (Some f) False how)) =
              Some (''bytes */'' @ numberToString ?S) \<and>
            body (snd (streamFileResponse req res (Some f) False how)) = NoBody \<and>
            finished (snd (streamFileResponse req res (Some f) False how))"
  proof (intro allI impI)
    fix h a b how
    assume h: "header req ''range'' = Some h \<and> rangeSpec h = Some (a, b) \<and> ?S \<le> requestedStart a"
    show "fst (streamFileResponse req res (Some f) False how) = Inr True \<and>
            statusCode (snd (streamFileResponse req res (Some f) False how)) = 416 \<and>
            getHeader ''Content-Range'' (snd (streamFileResponse req res (Some f) False how)) =
              Some (''bytes */'' @ numberToString ?S) \<and>
            body (snd (streamFileResponse req res (Some f) False how)) = NoBody \<and>
            finished (snd (streamFileResponse req res (Some f) False how))"
      using h assms(3)
      by (simp add: stream_unsatisfiable[OF assms(1,2,4), of req h a b how])
  qed
  have 3: "\<forall>h a b start end. header req ''range'' = Some h \<and> rangeSpec h = Some (a, b) \<and>
              start = requestedStart a \<and> start < ?S \<and>
              end = clampEnd ?S start (requestedEnd ?S b) \<longrightarrow>
            (?S \<le> requestedEnd ?S b \<or> requestedEnd ?S b < start \<longrightarrow> end = ?S - 1) \<and>
            (start \<le> requestedEnd ?S b \<and> requestedEnd ?S b < ?S \<longrightarrow> end = requestedEnd ?S b) \<and>
            0 \<le> start \<and> start \<le> end \<and> end < ?S \<and>
            fst (streamFileResponse req res (Some f) False Completed) = Inr True \<and>
            statusCode (snd (streamFileResponse req res (Some f) False Completed)) = 206 \<and>
            getHeader ''Content-Range'' (snd (streamFileResponse req res (Some f) False Completed)) =
              Some (contentRange start end ?S) \<and>
            getHeader ''Content-Length'' (snd (streamFileResponse req res (Some f) False Completed)) =
              Some (numberToString (end - start + 1)) \<and>
            body (snd (streamFileResponse req res (Some f) False Completed)) =
              Bytes (take (nat (end - start + 1)) (drop (nat start) (file_bytes f))) \<and>
            length (take (nat (end - start + 1)) (drop (nat start) (file_bytes f))) = nat (end - start + 1)"
  proof (intro allI impI)
    fix h a b start "end"
    assume h: "header req ''range'' = Some h \<and> rangeSpec h = Some (a, b) \<and>
              start = requestedStart a \<and> start < ?S \<and>
              end = clampEnd ?S start (requestedEnd ?S b)"
    then have lt: "requestedStart a < ?S" by simp
    have bnd: "start \<le> end \<and> end < ?S" using h clampEnd_bounds[of start ?S] by simp
    have s0: "0 \<le> start" using h requestedStart_nonneg by simp
    have cl: "(?S \<le> requestedEnd ?S b \<or> requestedEnd ?S b < start \<longrightarrow> end = ?S - 1) \<and>
            (start \<le> requestedEnd ?S b \<and> requestedEnd ?S b < ?S \<longrightarrow> end = requestedEnd ?S b)"
      using h by (auto simp: clampEnd_def)
    have len: "length (take (nat (end - start + 1)) (drop (nat start) (file_bytes f))) = nat (end - start + 1)"
      using bnd s0 by (simp add: min_def) linarith
    have eq: "streamFileResponse req res (Some f) False Completed =
     (Inr True,
      (storeHeader ''Content-Length'' (numberToString (end - start + 1))
         (storeHeader ''Content-Range'' (contentRange start end ?S)
            (status 206 (storeHeader ''Content-Type'' ''application/octet-stream''
               (storeHeader ''Last-Modified'' (file_mtime f) (storeHeader ''Accept-Ranges'' ''bytes'' res))))))
        \<lparr>body := Bytes (take (nat (end - start + 1)) (drop (nat start) (file_bytes f))),
         headersSent := True, finished := True\<rparr>)"
      using stream_partial[OF assms(1,2,4), of req h a b] h by simp
    show "(?S \<le> requestedEnd ?S b \<or> requestedEnd ?S b < start \<longrightarrow> end = ?S - 1) \<and>
            (start \<le> requestedEnd ?S b \<and> requestedEnd ?S b < ?S \<longrightarrow> end = requestedEnd ?S b) \<and>
            0 \<le> start \<and> start \<le> end \<and> end < ?S \<and>
            fst (streamFileResponse req res (Some f) False Completed) = Inr True \<and>
            statusCode (snd (streamFileResponse req res (Some f) False Completed)) = 206 \<and>
            getHeader ''Content-Range'' (snd (streamFileResponse req res (Some f) False Completed)) =
              Some (contentRange start end ?S) \<and>
            getHeader ''Content-Length'' (snd (streamFileResponse req res (Some f) False Completed)) =
              Some (numberToString (end - start + 1)) \<and>
            body (snd (streamFileResponse req res (Some f) False Completed)) =
              Bytes (take (nat (end - start + 1)) (drop (nat start) (file_bytes f))) \<and>
            length (take (nat (end - start + 1)) (drop (nat start) (file_bytes f))) = nat (end - start + 1)"
      unfolding eq using cl bnd s0 len
      by (simp add: getHeader_storeHeader_other header_names)
  qed
  have 4: "(header req ''range'' = None \<or> header req ''range'' = Some [] \<or>
           (\<exists>h. header req ''range'' = Some h \<and> rangeSpec h = None)) \<and> file_bytes f \<noteq> [] \<longrightarrow>
            fst (streamFileResponse req res (Some f) False Completed) = Inr True \<and>
            statusCode (snd (streamFileResponse req res (Some f) False Completed)) = 200 \<and>
            getHeader ''Content-Length'' (snd (streamFileResponse req res (Some f) False Completed)) =
              Some (numberToString ?S) \<and>
            body (snd (streamFileResponse req res (Some f) False Completed)) = Bytes (file_bytes f)"
  proof
    assume h: "(header req ''range'' = None \<or> header req ''range'' = Some [] \<or>
           (\<exists>h. header req ''range'' = Some h \<and> rangeSpec h = None)) \<and> file_bytes f \<noteq> []"
    show "fst (streamFileResponse req res (Some f) False Completed) = Inr True \<and>
            statusCode (snd (streamFileResponse req res (Some f) False Completed)) = 200 \<and>
            getHeader ''Content-Length'' (snd (streamFileResponse req res (Some f) False Completed)) =
              Some (numberToString ?S) \<and>
            body (snd (streamFileResponse req res (Some f) False Completed)) = Bytes (file_bytes f)"
      using h by (simp add: stream_full[OF assms(1,2,4), of req])
  qed
  show ?thesis using 1 0 2 3 4 5 6 by blast
qed

theorem range_semantics_witness:
  "file_isFile demo_file \<and> \<not> headersSent fresh_response \<and> body fresh_response = NoBody \<and>
   validHeaderValue (file_mtime demo_file) \<and>
   length (file_bytes demo_file) = 1000 \<and>
   statusCode (snd (streamFileResponse (demo_request ''GET'' (Some ''bytes=500-'')) fresh_response
      (Some demo_file) False Completed)) = 206 \<and>
   getHeader ''Content-Range'' (snd (streamFileResponse (demo_request ''GET'' (Some ''bytes=500-''))
      fresh_response (Some demo_file) False Completed)) = Some ''bytes 500-999/1000'' \<and>
   getHeader ''Content-Length'' (snd (streamFileResponse (demo_request ''GET'' (Some ''bytes=500-''))
      fresh_response (Some demo_file) False Completed)) = Some ''500'' \<and>
   body (snd (streamFileResponse (demo_request ''GET'' (Some ''bytes=500-'')) fresh_response
      (Some demo_file) False Completed)) = Bytes (replicate 500 (CHR ''x'')) \<and>
   statusCode (snd (streamFileResponse (demo_request ''GET'' (Some ''bytes=2000-3000'')) fresh_response
      (Some demo_file) False Completed)) = 416 \<and>
   getHeader ''Content-Range'' (snd (streamFileResponse (demo_request ''GET'' (Some ''bytes=2000-3000''))
      fresh_response (Some demo_file) False Completed)) = Some ''bytes */1000'' \<and>
   body (snd (streamFileResponse (demo_request ''GET'' (Some ''bytes=2000-3000'')) fresh_response
      (Some demo_file) False Completed)) = NoBody \<and>
   statusCode (snd (streamFileResponse (demo_request ''GET'' None) fresh_response
      (Some demo_file) False Completed)) = 200 \<and>
   getHeader ''Content-Length'' (snd (streamFileResponse (demo_request ''GET'' None) fresh_response
      (Some demo_file) False Completed)) = Some ''1000'' \<and>
   body (snd (streamFileResponse (demo_request ''GET'' None) fresh_response
      (Some demo_file) False Completed)) = Bytes (replicate 1000 (CHR ''x'')) \<and>
   statusCode (snd (streamFileResponse (demo_request ''GET'' (Some ''bytes=abc'')) fresh_response
      (Some demo_file) False Completed)) = 200 \<and>
   body (snd (streamFileResponse (demo_request ''GET'' (Some ''bytes=abc'')) fresh_response
      (Some demo_file) False Completed)) = Bytes (replicate 1000 (CHR ''x''))"
proof -
  note pre = demo_file_facts(1) fresh_response_facts demo_file_facts(4)
  let ?S = "int (length (file_bytes demo_file))"
  let ?r1 = "demo_request ''GET'' (Some ''bytes=500-'')"
  let ?r2 = "demo_request ''GET'' (Some ''bytes=2000-3000'')"
  let ?r3 = "demo_request ''GET'' None"
  let ?r4 = "demo_request ''GET'' (Some ''bytes=abc'')"
  have h1: "header ?r1 ''range'' = Some ''bytes=500-''"
    and h2: "header ?r2 ''range'' = Some ''bytes=2000-3000''"
    and h3: "header ?r3 ''range'' = None"
    and h4: "header ?r4 ''range'' = Some ''bytes=abc''"
    by (simp_all add: header_def demo_request_def)
  have p1: "header ?r1 ''range'' = Some ''bytes=500-'' \<and> rangeSpec ''bytes=500-'' = Some (''500'', []) \<and>
      500 = requestedStart ''500'' \<and> 500 < ?S \<and> 999 = clampEnd ?S 500 (requestedEnd ?S [])"
    by (simp add: h1 demo_range_values demo_file_facts(2))
  have a: "statusCode (snd (streamFileResponse ?r1 fresh_response (Some demo_file) False Completed)) = 206 \<and>
      getHeader ''Content-Range'' (snd (streamFileResponse ?r1 fresh_response (Some demo_file) False Completed)) =
        Some (contentRange 500 999 ?S) \<and>
      getHeader ''Content-Length'' (snd (streamFileResponse ?r1 fresh_response (Some demo_file) False Completed)) =
        Some (numberToString (999 - 500 + 1)) \<and>
      body (snd (streamFileResponse ?r1 fresh_response (Some demo_file) False Completed)) =
        Bytes (take (nat (999 - 500 + 1)) (drop (nat 500) (file_bytes demo_file)))"
    using range_semantics[OF pre, of ?r1, THEN conjunct2, THEN conjunct2, THEN conjunct2,
        THEN conjunct1, rule_format, of "''bytes=500-''" "''500''" "[]" 500 999, OF p1]
    by blast
  have p2: "header ?r2 ''range'' = Some ''bytes=2000-3000'' \<and>
      rangeSpec ''bytes=2000-3000'' = Some (''2000'', ''3000'') \<and> ?S \<le> requestedStart ''2000''"
    by (simp add: h2 demo_range_values demo_file_facts(2))
  have b: "statusCode (snd (streamFileResponse ?r2 fresh_response (Some demo_file) False Completed)) = 416 \<and>
      getHeader ''Content-Range'' (snd (streamFileResponse ?r2 fresh_response (Some demo_file) False Completed)) =
        Some (''bytes */'' @ numberToString ?S) \<and>
      body (snd (streamFileResponse ?r2 fresh_response (Some demo_file) False Completed)) = NoBody"
    using range_semantics[OF pre, of ?r2, THEN conjunct2, THEN conjunct2, THEN conjunct1,
        rule_format, of "''bytes=2000-3000''" "''2000''" "''3000''" Completed, OF p2]
    by blast
  have p3: "(header ?r3 ''range'' = None \<or> header ?r3 ''range'' = Some [] \<or>
      (\<exists>h. header ?r3 ''range'' = Some h \<and> rangeSpec h = None)) \<and> file_bytes demo_file \<noteq> []"
    using h3 demo_file_facts(3) by blast
  have c: "statusCode (snd (streamFileResponse ?r3 fresh_response (Some demo_file) False Completed)) = 200 \<and>
      getHeader ''Content-Length'' (snd (streamFileResponse ?r3 fresh_response (Some demo_file) False Completed)) =
        Some (numberToString ?S) \<and>
      body (snd (streamFileResponse ?r3 fresh_response (Some demo_file) False Completed)) =
        Bytes (file_bytes demo_file)"
    using range_semantics[OF pre, of ?r3, THEN conjunct2, THEN conjunct2, THEN conjunct2,
        THEN conjunct2, THEN conjunct1, rule_format, OF p3]
    by blast
  have p4: "(header ?r4 ''range'' = None \<or> header ?r4 ''range'' = Some [] \<or>
      (\<exists>h. header ?r4 ''range'' = Some h \<and> rangeSpec h = None)) \<and> file_bytes demo_file \<noteq> []"
    using h4 demo_range_values(3) demo_file_facts(3) by blast
  have d: "statusCode (snd (streamFileResponse ?r4 fresh_response (Some demo_file) False Completed)) = 200 \<and>
      body (snd (streamFileResponse ?r4 fresh_response (Some demo_file) False Completed)) =
        Bytes (file_bytes demo_file)"
    using range_semantics[OF pre, of ?r4, THEN conjunct2, THEN conjunct2, THEN conjunct2,
        THEN conjunct2, THEN conjunct1, rule_format, OF p4]
    by blast
  have slice: "take (nat (999 - 500 + 1)) (drop (nat 500) (file_bytes demo_file)) = replicate 500 (CHR ''x'')"
    by (simp add: demo_file_def)
  have all: "file_bytes demo_file = replicate 1000 (CHR ''x'')" by (simp add: demo_file_def)
  have len: "length (file_bytes demo_file) = 1000" by (simp add: demo_file_def)
  show ?thesis
    using pre len a b c d by (simp add: slice all demo_range_values)
qed

section \<open>Properties of the proxy and the handler\<close>

lemma relayHeaders_fields [simp]:
  "body (snd (relayHeaders hs res)) = body res"
  "statusCode (snd (relayHeaders hs res)) = statusCode res"
  "headersSent (snd (relayHeaders hs res)) = headersSent res"
  "finished (snd (relayHeaders hs res)) = finished res"
  by (simp_all add: relayHeaders_def)

lemma relayHeaders_ok:
  assumes "\<not> headersSent res" and "list_all (\<lambda>(k, v). validHeaderName k \<and> validHeaderValue v) hs"
  shows "relayHeaders hs res =
     (None, fold (\<lambda>(k, v). storeHeader k v)
              (filter (\<lambda>(key, _). toLowerCase key \<noteq> ''transfer-encoding'') hs) res)"
proof -
  have "list_all (\<lambda>(k, v). validHeaderName k \<and> validHeaderValue v)
          (filter (\<lambda>(key, _). toLowerCase key \<noteq> ''transfer-encoding'') hs)"
    using assms(2) by (simp add: list_all_iff)
  then show ?thesis
    unfolding relayHeaders_def by (rule setHeaders_ok[OF assms(1)])
qed

lemma proxied_method: "methodOf req = ''HEAD'' \<Longrightarrow> px_method (proxiedRequest req path) = ''GET''"
  by (simp add: proxiedRequest_def)

lemma copied_names:
  "(k, v) \<in> set (concat (map (\<lambda>(inName, outName).
       if truthy (header req inName) then [(outName, the (header req inName))] else []) names))
   \<Longrightarrow> k \<in> snd ` set names"
  by (induction names) (force split: if_splits)+

lemma forwarded_range:
  "map_of (forwardHeaders req True) ''Range'' =
     Some (if truthy (header req ''range'') then the (header req ''range'') else ''bytes=0-0'')"
proof -
  let ?copy = "\<lambda>(inName, outName).
       if truthy (header req inName) then [(outName, the (header req inName))] else []"
  let ?rest = "concat (map ?copy (tl passThrough))"
  have split: "concat (map ?copy passThrough) =
      (if truthy (header req ''range'') then [(''Range'', the (header req ''range''))] else []) @ ?rest"
    by (simp add: passThrough_def)
  have "''Range'' \<notin> snd ` set (tl passThrough)"
    by (simp add: passThrough_def)
  then have "''Range'' \<notin> fst ` set ?rest"
  proof (rule contrapos_nn)
    assume "''Range'' \<in> fst ` set ?rest"
    then obtain v where "(''Range'', v) \<in> set ?rest" by force
    then show "''Range'' \<in> snd ` set (tl passThrough)" by (rule copied_names)
  qed
  then have none: "map_of ?rest ''Range'' = None"
    by (simp add: map_of_eq_None_iff)
  show ?thesis
  proof (cases "truthy (header req ''range'')")
    case True
    then show ?thesis
      unfolding forwardHeaders_def Let_def split by simp
  next
    case False
    then show ?thesis
      unfolding forwardHeaders_def Let_def split using none by (simp add: map_add_def truthy_def)
  qed
qed

lemma proxy_head_body:
  assumes "methodOf req = ''HEAD''" and "fetch (proxiedRequest req path) = Inr up"
  shows "body (snd (proxyNzbdavStream req res path fetch how)) = body res"
proof -
  let ?r = "relayHeaders (up_headers up) (status (up_status up) res)"
  have b: "body (snd ?r) = body res" by simp
  show ?thesis
    using assms b
    by (cases ?r) (auto simp: proxyNzbdavStream_def split: option.splits)
qed

lemma proxy_head:
  assumes "methodOf req = ''HEAD''" and "fetch (proxiedRequest req path) = Inr up"
    and "\<not> headersSent res"
    and "list_all (\<lambda>(k, v). validHeaderName k \<and> validHeaderValue v) (up_headers up)"
  shows "proxyNzbdavStream req res path fetch how =
           (None, end_response (fold (\<lambda>(k, v). storeHeader k v)
              (filter (\<lambda>(key, _). toLowerCase key \<noteq> ''transfer-encoding'') (up_headers up))
              (status (up_status up) res)))"
proof -
  have "relayHeaders (up_headers up) (status (up_status up) res) =
     (None, fold (\<lambda>(k, v). storeHeader k v)
              (filter (\<lambda>(key, _). toLowerCase key \<noteq> ''transfer-encoding'') (up_headers up))
              (status (up_status up) res))"
    using assms(3,4) by (intro relayHeaders_ok) simp_all
  then show ?thesis
    using assms(1,2) by (simp add: proxyNzbdavStream_def)
qed

lemma fold_storeHeader_fields [simp]:
  "statusCode (fold (\<lambda>(k, v). storeHeader k v) hs res) = statusCode res"
  "body (fold (\<lambda>(k, v). storeHeader k v) hs res) = body res"
  "headersSent (fold (\<lambda>(k, v). storeHeader k v) hs res) = headersSent res"
  "finished (fold (\<lambda>(k, v). storeHeader k v) hs res) = finished res"
  by (induction hs arbitrary: res; simp split: prod.splits)+

lemma stream_failure_head:
  assumes "methodOf req = ''HEAD''" and "file_isFile f" and "\<not> headersSent res"
    and "validHeaderValue (failureReason err)" and "validHeaderValue (file_mtime f)"
  shows "streamFailureVideo req res (Some f) err how =
     (Inr True,
      end_response (status 200 (storeHeader ''Content-Length'' (numberToString (int (length (file_bytes f))))
        (storeHeader ''Content-Type'' ''application/octet-stream''
           (storeHeader ''Last-Modified'' (file_mtime f) (storeHeader ''Accept-Ranges'' ''bytes''
              (storeHeader ''X-NZBDav-Failure'' (failureReason err) res)))))))"
proof -
  let ?res1 = "storeHeader ''X-NZBDav-Failure'' (failureReason err) res"
  have 1: "setHeaders [(''X-NZBDav-Failure'', failureReason err)] res = (None, ?res1)"
    using assms(3,4) by (simp add: setHeader_ok valid_names)
  have 2: "\<not> headersSent ?res1" using assms(3) by simp
  show ?thesis
    unfolding streamFailureVideo_def Let_def
    using assms(1,2,3) 1 stream_head[OF assms(2) 2 assms(5), of req how]
    by (simp add: thenDo_def)
qed

lemma demo_head_method: "methodOf (demo_request ''HEAD'' r) = ''HEAD''"
  by (simp add: methodOf_def demo_request_def orElse_def truthy_def toUpperCase_def toUpperChar_def)

lemma demo_head_range: "header (demo_request ''HEAD'' None) ''range'' = None"
  by (simp add: header_def demo_request_def)

lemma demo_head_fetch:
  "demo_webdav (proxiedRequest (demo_request ''HEAD'' None) ''content/Movies/My.Movie.2024/My.Movie.2024.mkv'') =
     Inr \<lparr>up_status = 206,
          up_headers = [(''content-type'', ''video/x-matroska''), (''accept-ranges'', ''bytes''),
                        (''content-range'', ''bytes 0-0/1000''), (''content-length'', ''1'')],
          up_data = ''x''\<rparr>"
proof -
  have "map_of (px_headers (proxiedRequest (demo_request ''HEAD'' None)
      ''content/Movies/My.Movie.2024/My.Movie.2024.mkv'')) ''Range'' = Some ''bytes=0-0''"
    by (simp add: proxiedRequest_def demo_head_method forwarded_range demo_head_range truthy_def)
  then show ?thesis by (simp add: demo_webdav_def)
qed

lemma getHeader_storeHeader_ci:
  assumes "toLowerCase n = toLowerCase m"
  shows "getHeader n (storeHeader m v res) = Some v"
proof -
  have "getHeader n (storeHeader m v res) = getHeader m (storeHeader m v res)"
    using assms by (simp add: getHeader_def)
  then show ?thesis by simp
qed

lemma demo_relay_legal:
  "list_all (\<lambda>(k, v). validHeaderName k \<and> validHeaderValue v)
     [(''content-type'', ''video/x-matroska''), (''accept-ranges'', ''bytes''),
      (''content-range'', ''bytes 0-0/1000''), (''content-length'', ''1'')]"
  by (simp add: validHeaderName_def tokenChar_def validHeaderValue_def headerChar_def)

lemma demo_relay:
  "getHeader ''Content-Length''
     (fold (\<lambda>(k, v). storeHeader k v)
        (filter (\<lambda>(key, _). toLowerCase key \<noteq> ''transfer-encoding'')
           [(''content-type'', ''video/x-matroska''), (''accept-ranges'', ''bytes''),
            (''content-range'', ''bytes 0-0/1000''), (''content-length'', ''1'')]) res) = Some ''1''"
proof -
  have n: "toLowerCase ''content-type'' \<noteq> ''transfer-encoding''"
    "toLowerCase ''accept-ranges'' \<noteq> ''transfer-encoding''"
    "toLowerCase ''content-range'' \<noteq> ''transfer-encoding''"
    "toLowerCase ''content-length'' \<noteq> ''transfer-encoding''"
    "toLowerCase ''Content-Length'' = toLowerCase ''content-length''"
    by code_simp+
  have "getHeader ''Content-Length'' (storeHeader ''content-length'' ''1'' r) = Some ''1''" for r
    by (rule getHeader_storeHeader_ci[OF n(5)])
  then show ?thesis
    by (simp add: n)
qed

text \<open>
  C8 as stated fails on the remote path: the share holds a file of 1000 bytes and
  answers the forwarded \<^verbatim>\<open>GET\<close> with \<^verbatim>\<open>Range: bytes=0-0\<close> by 206 and
  \<^verbatim>\<open>Content-Length: 1\<close>, which the proxy relays as they are.
\<close>

theorem head_content_length_counterexample:
  "methodOf (demo_request ''HEAD'' None) = ''HEAD'' \<and>
   statusCode (snd (proxyNzbdavStream (demo_request ''HEAD'' None) fresh_response
      ''content/Movies/My.Movie.2024/My.Movie.2024.mkv'' demo_webdav Completed)) = 206 \<and>
   getHeader ''Content-Length'' (snd (proxyNzbdavStream (demo_request ''HEAD'' None) fresh_response
      ''content/Movies/My.Movie.2024/My.Movie.2024.mkv'' demo_webdav Completed)) = Some ''1'' \<and>
   getHeader ''Content-Length'' (snd (proxyNzbdavStream (demo_request ''HEAD'' None) fresh_response
      ''content/Movies/My.Movie.2024/My.Movie.2024.mkv'' demo_webdav Completed)) \<noteq> Some ''1000''"
proof -
  let ?up = "\<lparr>up_status = 206,
          up_headers = [(''content-type'', ''video/x-matroska''), (''accept-ranges'', ''bytes''),
                        (''content-range'', ''bytes 0-0/1000''), (''content-length'', ''1'')],
          up_data = ''x''\<rparr>"
  have legal: "list_all (\<lambda>(k, v). validHeaderName k \<and> validHeaderValue v) (up_headers ?up)"
    using demo_relay_legal by simp
  have eq: "proxyNzbdavStream (demo_request ''HEAD'' None) fresh_response
      ''content/Movies/My.Movie.2024/My.Movie.2024.mkv'' demo_webdav Completed =
      (None, end_response (fold (\<lambda>(k, v). storeHeader k v)
              (filter (\<lambda>(key, _). toLowerCase key \<noteq> ''transfer-encoding'') (up_headers ?up))
              (status (up_status ?up) fresh_response)))"
    using proxy_head[of "demo_request ''HEAD'' None" demo_webdav
        "''content/Movies/My.Movie.2024/My.Movie.2024.mkv''" ?up fresh_response Completed]
      demo_head_method[of None] demo_head_fetch fresh_response_facts(1) legal
    by simp
  have cl: "getHeader ''Content-Length'' (fold (\<lambda>(k, v). storeHeader k v)
              (filter (\<lambda>(key, _). toLowerCase key \<noteq> ''transfer-encoding'') (up_headers ?up))
              (status (up_status ?up) fresh_response)) = Some ''1''"
    using demo_relay[of "status 206 fresh_response"] by simp
  show ?thesis
    unfolding eq using cl demo_head_method[of None] by simp
qed

text \<open>
  C8, amended (HEAD semantics). For a HEAD request, on the remote path the proxy
  forwards a \<^verbatim>\<open>GET\<close> whose \<^verbatim>\<open>Range\<close> is the client's when it sent one and \<^verbatim>\<open>bytes=0-0\<close>
  otherwise; whatever the share's stream holds and however a pipeline would end, it
  writes no body; and it ends the response with the share's status and the share's
  headers but \<^verbatim>\<open>Transfer-Encoding\<close>, relayed as they are (on a response whose headers are
  unsent, the names and values being legal as an HTTP client delivers them). On the
  local path the answer is 200 with \<^verbatim>\<open>Content-Length\<close> equal to the size of the file,
  ended without a body; and the fallback stream is served that way for a HEAD request,
  with the failure reason in its header, when the reason is a legal header value.
\<close>

theorem head_semantics:
  assumes "methodOf req = ''HEAD''"
  shows "px_method (proxiedRequest req path) = ''GET'' \<and>
         map_of (px_headers (proxiedRequest req path)) ''Range'' =
           Some (if truthy (header req ''range'') then the (header req ''range'') else ''bytes=0-0'') \<and>
         (\<forall>fetch up how. fetch (proxiedRequest req path) = Inr up \<longrightarrow>
            body (snd (proxyNzbdavStream req res path fetch how)) = body res \<and>
            (\<not> headersSent res \<and>
             list_all (\<lambda>(k, v). validHeaderName k \<and> validHeaderValue v) (up_headers up) \<longrightarrow>
               proxyNzbdavStream req res path fetch how =
                 (None, end_response (fold (\<lambda>(k, v). storeHeader k v)
                    (filter (\<lambda>(key, _). toLowerCase key \<noteq> ''transfer-encoding'') (up_headers up))
                    (status (up_status up) res))) \<and>
               statusCode (snd (proxyNzbdavStream req res path fetch how)) = up_status up \<and>
               finished (snd (proxyNzbdavStream req res path fetch how)))) \<and>
         (\<forall>f how. file_isFile f \<and> \<not> headersSent res \<and> validHeaderValue (file_mtime f) \<longrightarrow>
            fst (streamFileResponse req res (Some f) True how) = Inr True \<and>
            statusCode (snd (streamFileResponse req res (Some f) True how)) = 200 \<and>
            getHeader ''Content-Length'' (snd (streamFileResponse req res (Some f) True how)) =
              Some (numberToString (int (length (file_bytes f)))) \<and>
            body (snd (streamFileResponse req res (Some f) True how)) = body res \<and>
            finished (snd (streamFileResponse req res (Some f) True how))) \<and>
         (\<forall>f err how. file_isFile f \<and> \<not> headersSent res \<and> validHeaderValue (file_mtime f) \<and>
              validHeaderValue (failureReason err) \<longrightarrow>
            fst (streamFailureVideo req res (Some f) err how) = Inr True \<and>
            statusCode (snd (streamFailureVideo req res (Some f) err how)) = 200 \<and>
            getHeader ''Content-Length'' (snd (streamFailureVideo req res (Some f) err how)) =
              Some (numberToString (int (length (file_bytes f)))) \<and>
            getHeader ''X-NZBDav-Failure'' (snd (streamFailureVideo req res (Some f) err how)) =
              Some (failureReason err) \<and>
            body (snd (streamFailureVideo req res (Some f) err how)) = body res \<and>
            finished (snd (streamFailureVideo req res (Some f) err how)))"
proof -
  have 1: "px_method (proxiedRequest req path) = ''GET''"
    by (rule proxied_method[OF assms])
  have 2: "map_of (px_headers (proxiedRequest req path)) ''Range'' =
           Some (if truthy (header req ''range'') then the (header req ''range'') else ''bytes=0-0'')"
    using assms forwarded_range[of req] by (simp add: proxiedRequest_def)
  have 3: "\<forall>fetch up how. fetch (proxiedRequest req path) = Inr up \<longrightarrow>
            body (snd (proxyNzbdavStream req res path fetch how)) = body res \<and>
            (\<not> headersSent res \<and>
             list_all (\<lambda>(k, v). validHeaderName k \<and> validHeaderValue v) (up_headers up) \<longrightarrow>
               proxyNzbdavStream req res path fetch how =
                 (None, end_response (fold (\<lambda>(k, v). storeHeader k v)
                    (filter (\<lambda>(key, _). toLowerCase key \<noteq> ''transfer-encoding'') (up_headers up))
                    (status (up_status up) res))) \<and>
               statusCode (snd (proxyNzbdavStream req res path fetch how)) = up_status up \<and>
               finished (snd (proxyNzbdavStream req res path fetch how)))"
  proof (intro allI impI conjI)
    fix fetch :: "proxied_request \<Rightarrow> js_error + upstream_response"
      and up :: upstream_response and how :: pipe_outcome
    assume f: "fetch (proxiedRequest req path) = Inr up"
    show "body (snd (proxyNzbdavStream req res path fetch how)) = body res"
      using proxy_head_body[of req fetch path up res how] assms f by simp
    assume l: "\<not> headersSent res \<and>
             list_all (\<lambda>(k, v). validHeaderName k \<and> validHeaderValue v) (up_headers up)"
    have eq: "proxyNzbdavStream req res path fetch how =
                 (None, end_response (fold (\<lambda>(k, v). storeHeader k v)
                    (filter (\<lambda>(key, _). toLowerCase key \<noteq> ''transfer-encoding'') (up_headers up))
                    (status (up_status up) res)))"
      using proxy_head[of req fetch path up res how] assms f l by simp
    show "proxyNzbdavStream req res path fetch how =
                 (None, end_response (fold (\<lambda>(k, v). storeHeader k v)
                    (filter (\<lambda>(key, _). toLowerCase key \<noteq> ''transfer-encoding'') (up_headers up))
                    (status (up_status up) res)))"
      by (rule eq)
    show "statusCode (snd (proxyNzbdavStream req res path fetch how)) = up_status up"
      unfolding eq by simp
    show "finished (snd (proxyNzbdavStream req res path fetch how))"
      unfolding eq by simp
  qed
  have 4: "\<forall>f how. file_isFile f \<and> \<not> headersSent res \<and> validHeaderValue (file_mtime f) \<longrightarrow>
            fst (streamFileResponse req res (Some f) True how) = Inr True \<and>
            statusCode (snd (streamFileResponse req res (Some f) True how)) = 200 \<and>
            getHeader ''Content-Length'' (snd (streamFileResponse req res (Some f) True how)) =
              Some (numberToString (int (length (file_bytes f)))) \<and>
            body (snd (streamFileResponse req res (Some f) True how)) = body res \<and>
            finished (snd (streamFileResponse req res (Some f) True how))"
    by (simp add: stream_head)
  have 5: "\<forall>f err how. file_isFile f \<and> \<not> headersSent res \<and> validHeaderValue (file_mtime f) \<and>
              validHeaderValue (failureReason err) \<longrightarrow>
            fst (streamFailureVideo req res (Some f) err how) = Inr True \<and>
            statusCode (snd (streamFailureVideo req res (Some f) err how)) = 200 \<and>
            getHeader ''Content-Length'' (snd (streamFailureVideo req res (Some f) err how)) =
              Some (numberToString (int (length (file_bytes f)))) \<and>
            getHeader ''X-NZBDav-Failure'' (snd (streamFailureVideo req res (Some f) err how)) =
              Some (failureReason err) \<and>
            body (snd (streamFailureVideo req res (Some f) err how)) = body res \<and>
            finished (snd (streamFailureVideo req res (Some f) err how))"
    by (simp add: stream_failure_head[OF assms] getHeader_storeHeader_other header_names)
  show ?thesis using 1 2 3 4 5 by blast
qed

theorem head_semantics_witness:
  "methodOf (demo_request ''HEAD'' None) = ''HEAD'' \<and>
   px_method (proxiedRequest (demo_request ''HEAD'' None) ''content/Movies/My.Movie.2024/My.Movie.2024.mkv'') = ''GET'' \<and>
   map_of (px_headers (proxiedRequest (demo_request ''HEAD'' None)
      ''content/Movies/My.Movie.2024/My.Movie.2024.mkv'')) ''Range'' = Some ''bytes=0-0'' \<and>
   body (snd (proxyNzbdavStream (demo_request ''HEAD'' None) fresh_response
      ''content/Movies/My.Movie.2024/My.Movie.2024.mkv'' demo_webdav Completed)) = NoBody \<and>
   file_isFile demo_file \<and> \<not> headersSent fresh_response \<and> validHeaderValue (file_mtime demo_file) \<and>
   statusCode (snd (streamFileResponse (demo_request ''HEAD'' None) fresh_response (Some demo_file) True Completed)) = 200 \<and>
   getHeader ''Content-Length'' (snd (streamFileResponse (demo_request ''HEAD'' None) fresh_response
      (Some demo_file) True Completed)) = Some ''1000'' \<and>
   body (snd (streamFileResponse (demo_request ''HEAD'' None) fresh_response (Some demo_file) True Completed)) = NoBody \<and>
   validHeaderValue (failureReason demo_failure) \<and>
   fst (streamFailureVideo (demo_request ''HEAD'' None) fresh_response (Some demo_file) demo_failure Completed) = Inr True \<and>
   getHeader ''Content-Length'' (snd (streamFailureVideo (demo_request ''HEAD'' None) fresh_response
      (Some demo_file) demo_failure Completed)) = Some ''1000'' \<and>
   getHeader ''X-NZBDav-Failure'' (snd (streamFailureVideo (demo_request ''HEAD'' None) fresh_response
      (Some demo_file) demo_failure Completed)) = Some ''missing articles'' \<and>
   body (snd (streamFailureVideo (demo_request ''HEAD'' None) fresh_response
      (Some demo_file) demo_failure Completed)) = NoBody"
proof -
  let ?req = "demo_request ''HEAD'' None"
  let ?path = "''content/Movies/My.Movie.2024/My.Movie.2024.mkv''"
  note T = head_semantics[OF demo_head_method, of None ?path fresh_response]
  have a: "px_method (proxiedRequest ?req ?path) = ''GET''"
    using T by blast
  have "map_of (px_headers (proxiedRequest ?req ?path)) ''Range'' =
      Some (if truthy (header ?req ''range'') then the (header ?req ''range'') else ''bytes=0-0'')"
    using T by blast
  then have b: "map_of (px_headers (proxiedRequest ?req ?path)) ''Range'' = Some ''bytes=0-0''"
    by (simp add: demo_head_range truthy_def)
  have c: "body (snd (proxyNzbdavStream ?req fresh_response ?path demo_webdav Completed)) = body fresh_response"
    using T demo_head_fetch by blast
  have d: "statusCode (snd (streamFileResponse ?req fresh_response (Some demo_file) True Completed)) = 200 \<and>
      getHeader ''Content-Length'' (snd (streamFileResponse ?req fresh_response
        (Some demo_file) True Completed)) = Some (numberToString (int (length (file_bytes demo_file)))) \<and>
      body (snd (streamFileResponse ?req fresh_response (Some demo_file) True Completed)) =
        body fresh_response"
    using T demo_file_facts(1,4) fresh_response_facts(1) by blast
  have v: "validHeaderValue (failureReason demo_failure)"
    by (simp add: failureReason_def demo_failure_def orElse_def truthy_def validHeaderValue_def headerChar_def)
  have e: "fst (streamFailureVideo ?req fresh_response (Some demo_file) demo_failure Completed) = Inr True \<and>
      getHeader ''Content-Length'' (snd (streamFailureVideo ?req fresh_response
        (Some demo_file) demo_failure Completed)) = Some (numberToString (int (length (file_bytes demo_file)))) \<and>
      getHeader ''X-NZBDav-Failure'' (snd (streamFailureVideo ?req fresh_response
        (Some demo_file) demo_failure Completed)) = Some (failureReason demo_failure) \<and>
      body (snd (streamFailureVideo ?req fresh_response (Some demo_file) demo_failure Completed)) =
        body fresh_response"
    using T demo_file_facts(1,4) fresh_response_facts(1) v by blast
  have r: "failureReason demo_failure = ''missing articles''"
    by (simp add: failureReason_def demo_failure_def orElse_def truthy_def)
  show ?thesis
    using demo_head_method[of None] a b c d e v demo_file_facts(1,4) fresh_response_facts
    by (simp add: demo_file_facts(2) demo_range_values(9) r)
qed

lemma pipeline_header [simp]: "getHeader n (snd (pipelineAsync src how res)) = getHeader n res"
  by (cases how) (simp_all add: pipelineAsync_def)


declare setHeaders.simps [simp del]









lemma failure_video_refused:
  assumes "file_isFile f" and "\<not> headersSent res" and "\<not> validHeaderValue (failureReason err)"
  shows "streamFailureVideo req res (Some f) err how =
     (Inl (Error (''Invalid character in header content ['' @ [CHR 0x22] @ ''X-NZBDav-Failure'' @
        [CHR 0x22] @ '']'')), res)"
  using assms
  by (simp add: streamFailureVideo_def Let_def thenDo_def setHeader_def valid_names setHeaders.simps)





lemma handle_resolution_error:
  assumes "truthy (req_downloadUrl req)" and "resolved env = Inl err"
  shows "handleNzbdavStream req env = catchBlock req env err fresh_response"
  using assms by (simp add: handleNzbdavStream_def tryBlock_def)

text \<open>
  When the failure reason is not a legal header value (it holds a line feed, say),
  \<^verbatim>\<open>setHeader\<close> throws inside the handler's \<^verbatim>\<open>catch\<close> block and nothing is sent.
\<close>

lemma fallback_reason_refused:
  assumes "truthy (req_downloadUrl req)" and "resolved env = Inl err" and "isNzbdavFailure err"
    and "fallback env = Some f" and "file_isFile f" and "\<not> validHeaderValue (failureReason err)"
  shows "handleNzbdavStream req env =
     (Some (Error (''Invalid character in header content ['' @ [CHR 0x22] @ ''X-NZBDav-Failure'' @
        [CHR 0x22] @ '']'')), fresh_response)"
proof -
  have "streamFailureVideo req fresh_response (Some f) err (fallback_pipe env) =
     (Inl (Error (''Invalid character in header content ['' @ [CHR 0x22] @ ''X-NZBDav-Failure'' @
        [CHR 0x22] @ '']'')), fresh_response)"
    using assms(5,6) by (intro failure_video_refused) (simp_all add: fresh_response_def)
  then show ?thesis
    unfolding handle_resolution_error[OF assms(1,2)] catchBlock_def
    using assms(3,4) by simp
qed








section \<open>Properties of the build pipeline\<close>

lemma pollOnce_marked:
  assumes "pollOnce nzo cat rep = Some (Inl e)" and "isNzbdavFailure e"
    and "\<forall>e'. rep = Rejected e' \<longrightarrow> \<not> isNzbdavFailure e'"
  shows "\<exists>slot. slotStatus slot = ''failed'' \<and> e = failureError (slotFailMessage slot) nzo cat"
proof (cases rep)
  case (Rejected e')
  then show ?thesis using assms by (simp add: pollOnce_def)
next
  case (Response http d)
  then show ?thesis
    using assms(1,2)
    by (auto simp: pollOnce_def Error_def split: if_splits option.splits)
qed

lemma waitFor_marked:
  assumes "waitForNzbdavHistorySlot cfg env start nzo cat = Inl e" and "isNzbdavFailure e"
    and "\<forall>i e'. reply env i = Rejected e' \<longrightarrow> \<not> isNzbdavFailure e'"
  shows "\<exists>slot. slotStatus slot = ''failed'' \<and> e = failureError (slotFailMessage slot) nzo cat"
proof (cases "ensureNzbdavConfigured cfg")
  case (Some e')
  then have "e = e'" using assms(1) by (simp add: waitForNzbdavHistorySlot_def)
  moreover have "\<not> isNzbdavFailure e'"
    using Some by (auto simp: ensureNzbdavConfigured_def Error_def split: if_splits)
  ultimately show ?thesis using assms(2) by simp
next
  case None
  then have w: "waitLoop env nzo cat (start + NZBDAV_POLL_TIMEOUT_MS) start 0 = Inl e"
    using assms(1) by (simp add: waitForNzbdavHistorySlot_def)
  from waitLoop_rounds[of env start 0 "start + NZBDAV_POLL_TIMEOUT_MS" nzo cat] obtain n where
    b: "if round_time env start 0 n < start + NZBDAV_POLL_TIMEOUT_MS
        then pollOnce nzo cat (reply env (0 + n)) =
               Some (waitLoop env nzo cat (start + NZBDAV_POLL_TIMEOUT_MS) start 0)
        else waitLoop env nzo cat (start + NZBDAV_POLL_TIMEOUT_MS) start 0 = Inl timeoutError"
    by blast
  show ?thesis
  proof (cases "round_time env start 0 n < start + NZBDAV_POLL_TIMEOUT_MS")
    case True
    then have "pollOnce nzo cat (reply env n) = Some (Inl e)" using b w by simp
    then show ?thesis using pollOnce_marked[of nzo cat "reply env n" e] assms(2,3) by blast
  next
    case False
    then have "e = timeoutError" using b w by simp
    then show ?thesis using assms(2) by (simp add: timeoutError_def Error_def)
  qed
qed

lemma addNzb_unmarked:
  assumes "addNzbToNzbdav cfg rep url cat = Inl e"
    and "\<forall>e'. rep = AddRejected e' \<longrightarrow> \<not> isNzbdavFailure e'"
  shows "\<not> isNzbdavFailure e"
  using assms
  by (auto simp: addNzbToNzbdav_def ensureNzbdavConfigured_def Error_def Let_def
      split: option.splits if_splits addurl_reply.splits)

lemma locate_unmarked: "locateStream env nzo slot cat req = Inl e \<Longrightarrow> \<not> isNzbdavFailure e"
  by (auto simp: locateStream_def Error_def split: if_splits option.splits)

text \<open>
  Of all the errors in which the build pipeline can end, only the poller's error for a
  job reported as failed is marked as a job failure, when the HTTP client's own errors
  are not: configuration, submission, timeout, job-name and no-playable-file errors are
  unmarked.
\<close>

lemma build_marked_only_by_poller:
  assumes "buildNzbdavStream env url cat ttl req = Inl e" and "isNzbdavFailure e"
    and "\<forall>e'. be_addurl env = AddRejected e' \<longrightarrow> \<not> isNzbdavFailure e'"
    and "\<forall>i e'. reply (be_history env) i = Rejected e' \<longrightarrow> \<not> isNzbdavFailure e'"
  shows "\<exists>slot nzo. slotStatus slot = ''failed'' \<and>
           e = (failureError (slotFailMessage slot) nzo cat)
                 \<lparr>downloadUrl := Some url, category := Some cat, title := Some ttl\<rparr>"
proof (cases "addNzbToNzbdav (be_config env) (be_addurl env) url cat")
  case (Inl e0)
  have "\<not> isNzbdavFailure e0" by (rule addNzb_unmarked[OF Inl assms(3)])
  then have "e = e0" using assms(1) Inl by (simp add: buildNzbdavStream_def)
  then show ?thesis using \<open>\<not> isNzbdavFailure e0\<close> assms(2) by simp
next
  case (Inr nzo)
  show ?thesis
  proof (cases "waitForNzbdavHistorySlot (be_config env) (be_history env) (be_start env) nzo cat")
    case (Inl e0)
    have eq: "e = (if isNzbdavFailure e0
               then e0\<lparr>downloadUrl := Some url, category := Some cat, title := Some ttl\<rparr> else e0)"
      using assms(1) Inr Inl by (simp add: buildNzbdavStream_def)
    then have m: "isNzbdavFailure e0" using assms(2) by (auto split: if_splits)
    from waitFor_marked[OF Inl m assms(4)] obtain slot where
      "slotStatus slot = ''failed'' \<and> e0 = failureError (slotFailMessage slot) nzo cat" by blast
    then show ?thesis using eq m by auto
  next
    case slot: (Inr slot)
    show ?thesis
    proof (cases "locateStream env nzo slot cat req")
      case (Inl e0)
      have "\<not> isNzbdavFailure e0" by (rule locate_unmarked[OF Inl])
      moreover have "e = (if isNzbdavFailure e0
               then e0\<lparr>downloadUrl := Some url, category := Some cat, title := Some ttl\<rparr> else e0)"
        using assms(1) Inr slot Inl by (simp add: buildNzbdavStream_def)
      ultimately show ?thesis using assms(2) by simp
    next
      case (Inr d)
      then show ?thesis using assms(1) \<open>addNzbToNzbdav (be_config env) (be_addurl env) url cat = Inr nzo\<close> slot
        by (simp add: buildNzbdavStream_def)
    qed
  qed
qed

lemma demo_submit:
  "addNzbToNzbdav demo_cfg (be_addurl (demo_build final)) ''https://indexer.example/nzb/1'' ''Movies'' =
     Inr ''nzo1''"
  by (simp add: addNzbToNzbdav_def ensureNzbdavConfigured_def demo_cfg_def demo_build_def entryId_def
      orElse_def truthy_def field_def firstOf_def Let_def)

lemma demo_movie_video: "isVideoFileName ''My.Movie.2024.mkv''"
  by code_simp

lemma demo_movie_best:
  "findBestVideoFile demo_movie_share ''Movies'' ''My.Movie.2024'' None =
     Some \<lparr>cand_name = ''My.Movie.2024.mkv'', cand_size = 4200000000, matchesEpisode = True,
            absolutePath = ''/content/Movies/My.Movie.2024/My.Movie.2024.mkv'',
            viewPath = ''content/Movies/My.Movie.2024/My.Movie.2024.mkv''\<rparr>"
  by (simp add: findBestVideoFile_def locate_eval demo_movie_share_def demo_movie_video
      fileMatchesEpisode_def)

lemma demo_build_ready:
  "buildNzbdavStream (demo_build ''Completed'') ''https://indexer.example/nzb/1'' ''Movies'' ''My Movie'' None =
     Inr demo_data"
proof -
  have c: "be_config (demo_build ''Completed'') = demo_cfg"
    "be_history (demo_build ''Completed'') = demo_env ''Completed'' 30"
    "be_start (demo_build ''Completed'') = 1000"
    "be_share (demo_build ''Completed'') = demo_movie_share"
    by (simp_all add: demo_build_def)
  have s: "slotJobName (demo_slot ''Completed'') = Some ''My.Movie.2024''"
    "slotCategory (demo_slot ''Completed'') ''Movies'' = ''Movies''"
    by (simp_all add: slotJobName_def slotCategory_def demo_slot_def orElse_def truthy_def field_def)
  show ?thesis
    by (simp add: buildNzbdavStream_def c demo_submit demo_completed locateStream_def s truthy_def
        demo_movie_best demo_data_def)
qed

lemma demo_build_failed:
  "buildNzbdavStream (demo_build ''Failed'') ''https://indexer.example/nzb/1'' ''Movies'' ''My Movie'' None =
     Inl (demo_failure\<lparr>downloadUrl := Some ''https://indexer.example/nzb/1'',
            category := Some ''Movies'', title := Some ''My Movie''\<rparr>)"
proof -
  have c: "be_config (demo_build ''Failed'') = demo_cfg"
    "be_history (demo_build ''Failed'') = demo_env ''Failed'' 30"
    "be_start (demo_build ''Failed'') = 1000"
    by (simp_all add: demo_build_def)
  show ?thesis
    by (simp add: buildNzbdavStream_def c demo_submit demo_failed demo_failure_def)
qed


text \<open>
  C2 (only a job failure poisons the cache). When the build of a key ends in an error
  marked \<^verbatim>\<open>isNzbdavFailure\<close>, the key holds the failed entry with that error, and every
  request on the key while the clock is before the entry's \<^verbatim>\<open>expiresAt\<close>, whatever
  happened in between, throws that error again, without another builder call for the
  key. When it ends in any other error the key is deleted, and the next request on the
  key, whatever happened in between on other keys, invokes the builder again. Of the
  errors of the build pipeline only the poller's error for a job reported as failed is
  marked (the HTTP client's own errors being unmarked): configuration, submission,
  timeout and no-playable-file errors are not.
\<close>

theorem cache_poisoning_selectivity:
  assumes "cache_inv s" and "builds s p = Some k"
  shows "(isNzbdavFailure err \<longrightarrow>
            nzbdavStreamCache (step (Settle p (Inl err)) s) k =
              Some (Failed err (Some (clock s + NZBDAV_CACHE_TTL_MS))) \<and>
            (\<forall>es. clock (run es (step (Settle p (Inl err)) s)) < clock s + NZBDAV_CACHE_TTL_MS \<longrightarrow>
               (\<forall>r. (k, r) \<in> set (observations (es @ [Request k]) (step (Settle p (Inl err)) s)) \<longrightarrow>
                     r = Thrown err) \<and>
               count_list (builder_calls (run (es @ [Request k]) (step (Settle p (Inl err)) s))) k =
                 count_list (builder_calls s) k)) \<and>
         (\<not> isNzbdavFailure err \<longrightarrow>
            nzbdavStreamCache (step (Settle p (Inl err)) s) k = None \<and>
            (\<forall>es. (\<forall>e\<in>set es. e \<noteq> Request k) \<longrightarrow>
               fst (getOrCreateNzbdavStream k (run es (step (Settle p (Inl err)) s))) =
                 Awaits (next_promise (run es (step (Settle p (Inl err)) s))) \<and>
               builder_calls (snd (getOrCreateNzbdavStream k (run es (step (Settle p (Inl err)) s)))) =
                 builder_calls (run es (step (Settle p (Inl err)) s)) @ [k])) \<and>
         (\<forall>benv url cat ttl req e.
            buildNzbdavStream benv url cat ttl req = Inl e \<and> isNzbdavFailure e \<and>
            (\<forall>e'. be_addurl benv = AddRejected e' \<longrightarrow> \<not> isNzbdavFailure e') \<and>
            (\<forall>i e'. reply (be_history benv) i = Rejected e' \<longrightarrow> \<not> isNzbdavFailure e') \<longrightarrow>
            (\<exists>slot nzo. slotStatus slot = ''failed'' \<and>
               e = (failureError (slotFailMessage slot) nzo cat)
                     \<lparr>downloadUrl := Some url, category := Some cat, title := Some ttl\<rparr>))"
proof -
  have a: "(isNzbdavFailure err \<longrightarrow>
            nzbdavStreamCache (step (Settle p (Inl err)) s) k =
              Some (Failed err (Some (clock s + NZBDAV_CACHE_TTL_MS))) \<and>
            (\<forall>es. clock (run es (step (Settle p (Inl err)) s)) < clock s + NZBDAV_CACHE_TTL_MS \<longrightarrow>
               (\<forall>r. (k, r) \<in> set (observations (es @ [Request k]) (step (Settle p (Inl err)) s)) \<longrightarrow>
                     r = Thrown err) \<and>
               count_list (builder_calls (run (es @ [Request k]) (step (Settle p (Inl err)) s))) k =
                 count_list (builder_calls s) k)) \<and>
         (\<not> isNzbdavFailure err \<longrightarrow>
            nzbdavStreamCache (step (Settle p (Inl err)) s) k = None \<and>
            (\<forall>es. (\<forall>e\<in>set es. e \<noteq> Request k) \<longrightarrow>
               fst (getOrCreateNzbdavStream k (run es (step (Settle p (Inl err)) s))) =
                 Awaits (next_promise (run es (step (Settle p (Inl err)) s))) \<and>
               builder_calls (snd (getOrCreateNzbdavStream k (run es (step (Settle p (Inl err)) s)))) =
                 builder_calls (run es (step (Settle p (Inl err)) s)) @ [k]))"
    by (rule settled_error[OF assms])
  have b: "\<forall>benv url cat ttl req e.
            buildNzbdavStream benv url cat ttl req = Inl e \<and> isNzbdavFailure e \<and>
            (\<forall>e'. be_addurl benv = AddRejected e' \<longrightarrow> \<not> isNzbdavFailure e') \<and>
            (\<forall>i e'. reply (be_history benv) i = Rejected e' \<longrightarrow> \<not> isNzbdavFailure e') \<longrightarrow>
            (\<exists>slot nzo. slotStatus slot = ''failed'' \<and>
               e = (failureError (slotFailMessage slot) nzo cat)
                     \<lparr>downloadUrl := Some url, category := Some cat, title := Some ttl\<rparr>)"
    using build_marked_only_by_poller by blast
  show ?thesis using conjunct1[OF a] conjunct2[OF a] b by (intro conjI)
qed

theorem cache_poisoning_selectivity_witness:
  "cache_inv demo_pending \<and> builds demo_pending 0 = Some ''u|Movies'' \<and>
   buildNzbdavStream (demo_build ''Failed'') ''https://indexer.example/nzb/1'' ''Movies'' ''My Movie'' None =
     Inl (demo_failure\<lparr>downloadUrl := Some ''https://indexer.example/nzb/1'',
            category := Some ''Movies'', title := Some ''My Movie''\<rparr>) \<and>
   isNzbdavFailure demo_failure \<and>
   nzbdavStreamCache (step (Settle 0 (Inl demo_failure)) demo_pending) ''u|Movies'' =
     Some (Failed demo_failure (Some 3601000)) \<and>
   count_list (builder_calls (run ([Tick 3599999, Request ''u|Movies''] @ [Request ''u|Movies''])
      (step (Settle 0 (Inl demo_failure)) demo_pending))) ''u|Movies'' = 1 \<and>
   observations ([Tick 3599999, Request ''u|Movies''] @ [Request ''u|Movies''])
      (step (Settle 0 (Inl demo_failure)) demo_pending) =
     [(''u|Movies'', Thrown demo_failure), (''u|Movies'', Thrown demo_failure)] \<and>
   \<not> isNzbdavFailure (Error ''[NZBDAV] Timeout while waiting for NZB to become streamable'') \<and>
   nzbdavStreamCache (step (Settle 0 (Inl (Error ''[NZBDAV] Timeout while waiting for NZB to become streamable''))) demo_pending)
      ''u|Movies'' = None \<and>
   fst (getOrCreateNzbdavStream ''u|Movies''
      (run [Tick 7] (step (Settle 0 (Inl (Error ''[NZBDAV] Timeout while waiting for NZB to become streamable''))) demo_pending))) =
     Awaits 1"
proof -
  let ?k = "''u|Movies''"
  let ?to = "Error ''[NZBDAV] Timeout while waiting for NZB to become streamable''"
  have b: "builds demo_pending 0 = Some ?k" by (simp add: demo_pending_eq)
  have f: "isNzbdavFailure demo_failure" by (simp add: demo_failure_def)
  have nf: "\<not> isNzbdavFailure ?to" by (simp add: Error_def)
  note T = cache_poisoning_selectivity[OF demo_pending_inv b, of demo_failure]
  note U = cache_poisoning_selectivity[OF demo_pending_inv b, of ?to]
  have c: "clock (run [Tick 3599999, Request ?k] (step (Settle 0 (Inl demo_failure)) demo_pending))
      < clock demo_pending + NZBDAV_CACHE_TTL_MS"
    by (simp add: settle_clock request_clock demo_pending_clock NZBDAV_CACHE_TTL_MS_def)
  have 1: "nzbdavStreamCache (step (Settle 0 (Inl demo_failure)) demo_pending) ?k =
     Some (Failed demo_failure (Some 3601000))"
    using T f by (simp add: demo_pending_clock NZBDAV_CACHE_TTL_MS_def)
  have 2: "count_list (builder_calls (run ([Tick 3599999, Request ?k] @ [Request ?k])
      (step (Settle 0 (Inl demo_failure)) demo_pending))) ?k = count_list (builder_calls demo_pending) ?k"
    using T f c by blast
  have cnt1: "count_list (builder_calls demo_pending) ?k = 1" by (simp add: demo_pending_eq)
  have 3: "observations ([Tick 3599999, Request ?k] @ [Request ?k])
      (step (Settle 0 (Inl demo_failure)) demo_pending) =
     [(?k, Thrown demo_failure), (?k, Thrown demo_failure)]"
    by (simp add: demo_pending_eq settle_def demo_failure_def getOrCreateNzbdavStream_def
        cleanupNzbdavCache_def Let_def commit_expiry_def NZBDAV_CACHE_TTL_MS_def expired_def)
  have 4: "nzbdavStreamCache (step (Settle 0 (Inl ?to)) demo_pending) ?k = None"
    using U nf by blast
  have "\<forall>e\<in>set [Tick 7]. e \<noteq> Request ?k" by simp
  then have "fst (getOrCreateNzbdavStream ?k (run [Tick 7] (step (Settle 0 (Inl ?to)) demo_pending))) =
      Awaits (next_promise (run [Tick 7] (step (Settle 0 (Inl ?to)) demo_pending)))"
    using U nf by blast
  then have 5: "fst (getOrCreateNzbdavStream ?k (run [Tick 7] (step (Settle 0 (Inl ?to)) demo_pending))) =
      Awaits 1"
    by (simp add: demo_pending_eq settle_def Error_def)
  show ?thesis using demo_pending_inv b f nf 1 2 cnt1 3 4 5 demo_build_failed by simp
qed

end
